theory Spec2Isabelle
  imports Main "HOL-Library.Word" "HOL-Library.Multiset"
begin

section \<open>Machine types and constants of libadb/reader.c\<close>

text \<open>
  The reader is modelled for the x86_64 build: \<open>UINTN\<close> and \<open>unsigned long\<close> are 64 bits
  wide, as \<open>UINT64\<close> and \<open>EFI_PHYSICAL_ADDRESS\<close> always are.  Arithmetic on words wraps
  around, as the unsigned arithmetic of C does.
\<close>

type_synonym UINT16 = "16 word"
type_synonym UINT32 = "32 word"
type_synonym UINT64 = "64 word"
type_synonym UINTN = "64 word"
type_synonym EFI_PHYSICAL_ADDRESS = "64 word"

datatype EFI_STATUS =
    EFI_SUCCESS
  | EFI_INVALID_PARAMETER
  | EFI_UNSUPPORTED
  | EFI_BUFFER_TOO_SMALL
  | EFI_OUT_OF_RESOURCES
  | EFI_NOT_FOUND
  | EFI_DEVICE_ERROR

definition EFI_ERROR :: "EFI_STATUS \<Rightarrow> bool" where
  "EFI_ERROR ret = (ret \<noteq> EFI_SUCCESS)"

definition MAX_MEMORY_REGION_NB :: UINTN where
  "MAX_MEMORY_REGION_NB = 256"

text \<open>
  Modelled from the spec: the page size \<open>P\<close> is 4096 (efi.h is not among the sources).
  It is an integer constant and takes the type of the expression it is used in.
\<close>

definition EFI_PAGE_SIZE :: "'a::len word" where
  "EFI_PAGE_SIZE = 4096"

text \<open>
  The descriptor type of ordinary RAM, the seventh value of the firmware's enumeration
  of memory types.  The reader only compares descriptor types with it.
\<close>

definition EfiConventionalMemory :: UINT32 where
  "EfiConventionalMemory = 7"

record EFI_MEMORY_DESCRIPTOR =
  Type :: UINT32
  PhysicalStart :: EFI_PHYSICAL_ADDRESS
  VirtualStart :: UINT64
  NumberOfPages :: UINT64
  Attribute :: UINT64

text \<open>
  Modelled from the spec: the layout of the sparse file header and of the chunk header
  (sparse_format.h is not among the sources).  The wire format gives the chunk header
  a 2-byte type, 2 reserved bytes, a 4-byte block count and a 4-byte total size, 12 bytes
  in all, and the file header 28 bytes; the chunk types are \<open>RAW = 0xCAC1\<close> and
  \<open>DONT_CARE = 0xCAC3\<close>.  The magic number is the one of the sparse image format; the
  reader only stores it.
\<close>

record chunk_header =
  chunk_type :: UINT16
  reserved1 :: UINT16
  chunk_sz :: UINT32
  total_sz :: UINT32

record sparse_header =
  magic :: UINT32
  major_version :: UINT16
  minor_version :: UINT16
  file_hdr_sz :: UINT16
  chunk_hdr_sz :: UINT16
  blk_sz :: UINT32
  total_blks :: UINT32
  total_chunks :: UINT32
  image_checksum :: UINT32

definition sizeof_sparse_header :: "'a::len word" where
  "sizeof_sparse_header = 28"

definition sizeof_chunk_header :: "'a::len word" where
  "sizeof_chunk_header = 12"

definition SPARSE_HEADER_MAGIC :: UINT32 where
  "SPARSE_HEADER_MAGIC = 0xed26ff3a"

definition CHUNK_TYPE_RAW :: UINT16 where
  "CHUNK_TYPE_RAW = 0xCAC1"

definition CHUNK_TYPE_DONT_CARE :: UINT16 where
  "CHUNK_TYPE_DONT_CARE = 0xCAC3"

section \<open>Reader context and the static state of the RAM reader\<close>

text \<open>
  \<open>struct ram_priv\<close>.  The memory map buffer holds the descriptors the firmware wrote
  into it, at the firmware's stride; the model keeps them as a list.  The chunk array
  has 256 slots; it is a function from the slot index, of which the code only uses the
  indexes below 256.  The source's field \<open>cur\<close> is \<open>cur_addr\<close> here and \<open>end\<close> is
  \<open>end_addr\<close>; the field \<open>private\<close> of the context is \<open>private_data\<close>.
\<close>

record ram_priv =
  is_in_used :: bool
  memmap :: "EFI_MEMORY_DESCRIPTOR list"
  start :: EFI_PHYSICAL_ADDRESS
  end_addr :: EFI_PHYSICAL_ADDRESS
  cur_addr :: EFI_PHYSICAL_ADDRESS
  cur_end :: EFI_PHYSICAL_ADDRESS
  chunk_nb :: UINTN
  cur_chunk :: UINTN
  sheader :: sparse_header
  chunks :: "nat \<Rightarrow> chunk_header"

record gpt_partition_interface =
  starting_lba :: UINT64
  ending_lba :: UINT64
  BlockSize :: UINT32

record part_priv =
  gparti :: gpt_partition_interface
  need_more_data :: bool
  buf_cur :: UINTN
  buf_len :: UINTN
  offset :: UINT64

text \<open>The entries of the table \<open>READERS\<close>.\<close>

datatype reader = Ram | Acpi | Part | Efivar

text \<open>
  What \<open>ctx->private\<close> points to: nothing, the static \<open>ram_priv\<close>, a pool block holding
  a \<open>part_priv\<close>, a resident byte region (an ACPI table or the value of a variable), or
  a pool block that has been freed.
\<close>

datatype private_ptr =
    PRIV_NULL
  | PRIV_RAM
  | PRIV_PART part_priv
  | PRIV_REGION
  | PRIV_FREED

record reader_ctx =
  reader :: "reader option"
  private_data :: private_ptr
  cur :: UINTN
  len :: UINTN

text \<open>The arguments \<open>FreePool\<close> can be called with in this file.\<close>

datatype pool_ptr =
    PTR_NULL
  | PTR_ram_priv_chunks
  | PTR_part_priv
  | PTR_partname
  | PTR_varname
  | PTR_private private_ptr

text \<open>
  The state outside the context: the static \<open>ram_priv\<close> and the log of the calls of
  \<open>FreePool\<close>, oldest first.
\<close>

record globals =
  static_ram_priv :: ram_priv
  pool_freed :: "pool_ptr list"

definition FreePool :: "pool_ptr \<Rightarrow> globals \<Rightarrow> globals" where
  "FreePool p g = g\<lparr>pool_freed := pool_freed g @ [p]\<rparr>"

text \<open>
  Where a buffer returned by \<open>read\<close> points: at the sparse header, at a slot of the chunk
  array, at a physical address, into the bounce buffer of the partition reader, or into
  the private region at a byte offset.
\<close>

datatype buffer =
    BUF_NONE
  | BUF_sheader
  | BUF_chunk nat
  | BUF_phys EFI_PHYSICAL_ADDRESS
  | BUF_part UINTN
  | BUF_private UINTN

section \<open>RAM reader\<close>

subsection \<open>sort_memory_map\<close>

text \<open>
  The \<open>for\<close> loop of the bubble sort, from index \<open>i\<close>.  It runs while
  \<open>i < nr_entries - 1\<close>; the caller below only enters it with \<open>nr_entries > 0\<close>.
\<close>

function sort_pass ::
  "EFI_MEMORY_DESCRIPTOR list \<Rightarrow> nat \<Rightarrow> nat \<Rightarrow> bool \<Rightarrow> EFI_MEMORY_DESCRIPTOR list \<times> bool"
where
  "sort_pass entries nr_entries i swapped =
     (if i < nr_entries - 1 then
        (if PhysicalStart (entries ! i) > PhysicalStart (entries ! (i + 1))
         then sort_pass (entries[i := entries ! (i + 1), i + 1 := entries ! i])
                nr_entries (i + 1) True
         else sort_pass entries nr_entries (i + 1) swapped)
      else (entries, swapped))"
  by pat_completeness auto
termination
  by (relation "measure (\<lambda>(entries, nr_entries, i, swapped). nr_entries - 1 - i)") auto

declare sort_pass.simps [simp del]

text \<open>
  The \<open>do ... while (swapped)\<close> loop.  With \<open>nr_entries = 0\<close> the bound
  \<open>nr_entries - 1\<close> of the inner loop wraps around to the largest \<open>UINTN\<close> and the loop
  reads past the buffer: the result is \<open>None\<close>.
\<close>

function sort_memory_map ::
  "EFI_MEMORY_DESCRIPTOR list \<Rightarrow> nat \<Rightarrow> EFI_MEMORY_DESCRIPTOR list option"
where
  "sort_memory_map entries nr_entries =
     (if nr_entries = 0 then None
      else (case sort_pass entries nr_entries 0 False of
              (entries', swapped) \<Rightarrow>
                if swapped then sort_memory_map entries' (nr_entries - 1)
                else Some entries'))"
  by pat_completeness auto
termination
  by (relation "measure (\<lambda>(entries, nr_entries). nr_entries)") auto

declare sort_memory_map.simps [simp del]

subsection \<open>ram_add_chunk\<close>

definition ram_add_chunk ::
  "reader_ctx \<Rightarrow> ram_priv \<Rightarrow> UINT16 \<Rightarrow> UINT64 \<Rightarrow> EFI_STATUS \<times> reader_ctx \<times> ram_priv"
where
  "ram_add_chunk ctx priv type sz =
     (if sz mod EFI_PAGE_SIZE \<noteq> 0 then (EFI_INVALID_PARAMETER, ctx, priv)
      else if chunk_nb priv = MAX_MEMORY_REGION_NB then (EFI_OUT_OF_RESOURCES, ctx, priv)
      else
        let idx = unat (chunk_nb priv);
            blocks = (ucast (sz div EFI_PAGE_SIZE) :: UINT32);
            c = (chunks priv idx)
                  \<lparr>chunk_type := type,
                   chunk_sz := blocks,
                   total_sz := (if type = CHUNK_TYPE_RAW
                                then sizeof_chunk_header + ucast sz
                                else sizeof_chunk_header)\<rparr>;
            ctx' = ctx\<lparr>len := (if type = CHUNK_TYPE_RAW
                                then len ctx + sizeof_chunk_header + sz
                                else len ctx + sizeof_chunk_header)\<rparr>;
            sh = sheader priv;
            priv' = priv\<lparr>chunk_nb := chunk_nb priv + 1,
                         chunks := (chunks priv)(idx := c),
                         sheader := sh\<lparr>total_chunks := total_chunks sh + 1,
                                        total_blks := total_blks sh + blocks\<rparr>\<rparr>
        in (EFI_SUCCESS, ctx', priv'))"

subsection \<open>ram_build_chunks\<close>

text \<open>The length of the hole chunk between \<open>prev_end\<close> and the entry (lines 147 to 153).\<close>

definition hole_length ::
  "ram_priv \<Rightarrow> EFI_PHYSICAL_ADDRESS \<Rightarrow> EFI_MEMORY_DESCRIPTOR \<Rightarrow> UINT64"
where
  "hole_length priv prev_end entry =
     (let length0 = PhysicalStart entry - prev_end;
          length1 = (if start priv > prev_end \<and> start priv < PhysicalStart entry
                     then length0 - (start priv - prev_end) else length0)
      in if end_addr priv \<noteq> 0 \<and> PhysicalStart entry > end_addr priv
         then length1 - (PhysicalStart entry - end_addr priv) else length1)"

text \<open>The length of the chunk of the entry itself (lines 163 to 168).\<close>

definition entry_length :: "ram_priv \<Rightarrow> EFI_MEMORY_DESCRIPTOR \<Rightarrow> UINT64" where
  "entry_length priv entry =
     (let entry_len = NumberOfPages entry * EFI_PAGE_SIZE;
          entry_end = PhysicalStart entry + entry_len;
          length1 = (if start priv > PhysicalStart entry \<and> start priv < entry_end
                     then entry_len - (start priv - PhysicalStart entry) else entry_len)
      in if end_addr priv \<noteq> 0 \<and> end_addr priv < entry_end
         then length1 - (entry_end - end_addr priv) else length1)"

text \<open>
  How one round of the \<open>for\<close> loop ends: at the label \<open>next\<close>, by \<open>break\<close>, or by
  \<open>goto err\<close> with the current value of \<open>ret\<close>.
\<close>

datatype step = Next reader_ctx ram_priv | Break reader_ctx ram_priv | Err EFI_STATUS reader_ctx ram_priv

text \<open>Lines 163 to 176: the chunk of the entry.\<close>

definition entry_chunk :: "reader_ctx \<Rightarrow> ram_priv \<Rightarrow> EFI_MEMORY_DESCRIPTOR \<Rightarrow> step" where
  "entry_chunk ctx priv entry =
     (let entry_end = PhysicalStart entry + NumberOfPages entry * EFI_PAGE_SIZE;
          type = (if Type entry = EfiConventionalMemory
                  then CHUNK_TYPE_RAW else CHUNK_TYPE_DONT_CARE)
      in case ram_add_chunk ctx priv type (entry_length priv entry) of
           (ret, ctx', priv') \<Rightarrow>
             if EFI_ERROR ret then Err ret ctx' priv'
             else if end_addr priv' \<noteq> 0 \<and> end_addr priv' \<le> entry_end then Break ctx' priv'
             else Next ctx' priv')"

text \<open>Lines 133 to 176: the body of the loop for one entry.\<close>

definition build_step ::
  "reader_ctx \<Rightarrow> ram_priv \<Rightarrow> EFI_PHYSICAL_ADDRESS \<Rightarrow> EFI_MEMORY_DESCRIPTOR \<Rightarrow> step"
where
  "build_step ctx priv prev_end entry =
     (let entry_end = PhysicalStart entry + NumberOfPages entry * EFI_PAGE_SIZE
      in if start priv \<ge> entry_end then Next ctx priv
         else if prev_end \<noteq> PhysicalStart entry then
           (if prev_end > PhysicalStart entry then Err EFI_SUCCESS ctx priv
            else case ram_add_chunk ctx priv CHUNK_TYPE_DONT_CARE
                        (hole_length priv prev_end entry) of
                   (ret, ctx', priv') \<Rightarrow>
                     if EFI_ERROR ret then Err ret ctx' priv'
                     else if end_addr priv' \<noteq> 0 \<and> end_addr priv' < PhysicalStart entry
                     then Break ctx' priv'
                     else entry_chunk ctx' priv' entry)
         else entry_chunk ctx priv entry)"

text \<open>
  How the \<open>for\<close> loop was left: with \<open>i = nr_entries\<close>, by \<open>break\<close> (then
  \<open>i < nr_entries\<close>), or by \<open>goto err\<close>.
\<close>

datatype loop_exit = Completed | Broke | Failed EFI_STATUS

fun build_loop ::
  "EFI_MEMORY_DESCRIPTOR list \<Rightarrow> EFI_PHYSICAL_ADDRESS \<Rightarrow> reader_ctx \<Rightarrow> ram_priv \<Rightarrow>
   loop_exit \<times> EFI_PHYSICAL_ADDRESS \<times> reader_ctx \<times> ram_priv"
where
  "build_loop [] prev_end ctx priv = (Completed, prev_end, ctx, priv)"
| "build_loop (entry # entries) prev_end ctx priv =
     (case build_step ctx priv prev_end entry of
        Next ctx' priv' \<Rightarrow>
          build_loop entries (PhysicalStart entry + NumberOfPages entry * EFI_PAGE_SIZE)
            ctx' priv'
      | Break ctx' priv' \<Rightarrow> (Broke, prev_end, ctx', priv')
      | Err ret ctx' priv' \<Rightarrow> (Failed ret, prev_end, ctx', priv'))"

text \<open>
  \<open>ram_build_chunks\<close> walks the \<open>nr_entries\<close> descriptors of \<open>priv->memmap\<close>; \<open>priv\<close>
  is the static \<open>ram_priv\<close>.  The array \<open>priv->chunks\<close> is a member of the structure, so
  the test \<open>if (priv->chunks)\<close> at the label \<open>err\<close> always holds.
\<close>

definition ram_build_chunks :: "reader_ctx \<Rightarrow> globals \<Rightarrow> EFI_STATUS \<times> reader_ctx \<times> globals" where
  "ram_build_chunks ctx g =
     (let priv = static_ram_priv g;
          ctx0 = ctx\<lparr>cur := 0, len := 0\<rparr>
      in case build_loop (memmap priv) 0 ctx0 priv of
           (Failed ret, prev_end, ctx', priv') \<Rightarrow>
             (if EFI_ERROR ret then ret else EFI_INVALID_PARAMETER, ctx',
              FreePool PTR_ram_priv_chunks (g\<lparr>static_ram_priv := priv'\<rparr>))
         | (exit, prev_end, ctx', priv') \<Rightarrow>
             if end_addr priv' \<noteq> 0 \<and> exit = Completed
             then (EFI_INVALID_PARAMETER, ctx', g\<lparr>static_ram_priv := priv'\<rparr>)
             else if len ctx' = 0
             then (EFI_INVALID_PARAMETER, ctx', g\<lparr>static_ram_priv := priv'\<rparr>)
             else (EFI_SUCCESS, ctx',
                   g\<lparr>static_ram_priv :=
                       priv'\<lparr>end_addr := (if end_addr priv' = 0 then prev_end else end_addr priv')\<rparr>\<rparr>))"

subsection \<open>ram_open\<close>

text \<open>
  An argument of the reader is represented by what \<open>strtoul(arg, &endptr, 16)\<close> makes
  of it: the value, and whether \<open>*endptr\<close> is the terminating NUL.
\<close>

type_synonym strtoul_result = "UINT64 \<times> bool"

text \<open>The structure after \<open>memset(priv, 0, sizeof(*priv))\<close>.\<close>

definition zero_chunk_header :: chunk_header where
  "zero_chunk_header = \<lparr>chunk_type = 0, reserved1 = 0, chunk_sz = 0, total_sz = 0\<rparr>"

definition zero_sparse_header :: sparse_header where
  "zero_sparse_header =
     \<lparr>magic = 0, major_version = 0, minor_version = 0, file_hdr_sz = 0, chunk_hdr_sz = 0,
      blk_sz = 0, total_blks = 0, total_chunks = 0, image_checksum = 0\<rparr>"

definition zero_ram_priv :: ram_priv where
  "zero_ram_priv =
     \<lparr>is_in_used = False, memmap = [], start = 0, end_addr = 0, cur_addr = 0, cur_end = 0,
      chunk_nb = 0, cur_chunk = 0, sheader = zero_sparse_header,
      chunks = (\<lambda>i. zero_chunk_header)\<rparr>"

text \<open>
  Lines 225 to 243: the window.  The result holds \<open>False\<close> where the code leaves by
  \<open>goto err\<close>, with the structure as it is then.
\<close>

definition parse_window :: "strtoul_result list \<Rightarrow> ram_priv \<Rightarrow> bool \<times> ram_priv" where
  "parse_window argv priv =
     (let argc = length argv;
          priv1 = (if argc > 0 then priv\<lparr>start := fst (argv ! 0)\<rparr> else priv)
      in if argc > 0 \<and> \<not> snd (argv ! 0) then (False, priv1)
         else if argc = 2 \<and> \<not> snd (argv ! 1) then (False, priv1)
         else
           let priv2 = (if argc = 2 then priv1\<lparr>end_addr := start priv1 + fst (argv ! 1)\<rparr>
                        else priv1\<lparr>end_addr := 0\<rparr>)
           in if start priv2 mod EFI_PAGE_SIZE \<noteq> 0 \<or> end_addr priv2 mod EFI_PAGE_SIZE \<noteq> 0
              then (False, priv2) else (True, priv2))"

text \<open>Lines 246 to 251.\<close>

definition init_sheader :: "sparse_header \<Rightarrow> sparse_header" where
  "init_sheader sh =
     sh\<lparr>magic := SPARSE_HEADER_MAGIC, major_version := 1, minor_version := 0,
        file_hdr_sz := sizeof_sparse_header, chunk_hdr_sz := sizeof_chunk_header,
        blk_sz := EFI_PAGE_SIZE\<rparr>"

text \<open>
  \<open>ram_open\<close>.  \<open>GetMemoryMap\<close> is what the firmware call returns: its status and the
  descriptors it wrote into \<open>priv->memmap\<close>, of which there are
  \<open>nr_descr = memmap_sz / descr_sz\<close>.  The result is \<open>None\<close> where the sort reads
  past the buffer (an empty map).  At the label \<open>err\<close> the status is \<open>ret\<close> if that
  is an error and \<open>EFI_INVALID_PARAMETER\<close> otherwise.
\<close>

definition ram_open ::
  "reader_ctx \<Rightarrow> strtoul_result list \<Rightarrow> EFI_STATUS \<times> EFI_MEMORY_DESCRIPTOR list \<Rightarrow> globals \<Rightarrow>
   (EFI_STATUS \<times> reader_ctx \<times> globals) option"
where
  "ram_open ctx argv GetMemoryMap g =
     (if length argv > 2 then Some (EFI_INVALID_PARAMETER, ctx, g)
      else if is_in_used (static_ram_priv g) then Some (EFI_UNSUPPORTED, ctx, g)
      else
        let ctx1 = ctx\<lparr>private_data := PRIV_RAM\<rparr>;
            priv0 = zero_ram_priv\<lparr>is_in_used := True\<rparr>
        in case parse_window argv priv0 of
             (ok, priv1) \<Rightarrow>
               if \<not> ok
               then Some (EFI_INVALID_PARAMETER, ctx1,
                          g\<lparr>static_ram_priv := priv1\<lparr>is_in_used := False\<rparr>\<rparr>)
               else
                 let priv2 = priv1\<lparr>sheader := init_sheader (sheader priv1)\<rparr>
                 in if EFI_ERROR (fst GetMemoryMap)
                    then Some (fst GetMemoryMap, ctx1,
                               g\<lparr>static_ram_priv := priv2\<lparr>is_in_used := False\<rparr>\<rparr>)
                    else
                      (case sort_memory_map (snd GetMemoryMap)
                              (length (snd GetMemoryMap)) of
                         None \<Rightarrow> None
                       | Some entries \<Rightarrow>
                           (case ram_build_chunks ctx1
                                   (g\<lparr>static_ram_priv := priv2\<lparr>memmap := entries\<rparr>\<rparr>) of
                              (ret, ctx2, g2) \<Rightarrow>
                                let g3 = FreePool PTR_NULL g2
                                in if EFI_ERROR ret
                                   then Some (ret, ctx2,
                                              g3\<lparr>static_ram_priv :=
                                                  (static_ram_priv g3)
                                                    \<lparr>is_in_used := False\<rparr>\<rparr>)
                                   else Some (EFI_SUCCESS,
                                              ctx2\<lparr>len := len ctx2 + sizeof_sparse_header\<rparr>,
                                              g3))))"

subsection \<open>ram_read and ram_close\<close>

text \<open>
  \<open>ram_read\<close> gets the buffer pointer and the offered length and returns them updated;
  \<open>priv\<close> is the static \<open>ram_priv\<close>.  The product \<open>chunk->chunk_sz * EFI_PAGE_SIZE\<close>
  is one of a 32-bit field and an integer constant, so it is taken in 32 bits.
\<close>

definition ram_read ::
  "reader_ctx \<Rightarrow> ram_priv \<Rightarrow> buffer \<times> UINTN \<Rightarrow> EFI_STATUS \<times> (buffer \<times> UINTN) \<times> ram_priv"
where
  "ram_read ctx priv bl =
     (if cur ctx = 0 then
        (if snd bl < sizeof_sparse_header then (EFI_INVALID_PARAMETER, bl, priv)
         else (EFI_SUCCESS, (BUF_sheader, sizeof_sparse_header),
               priv\<lparr>cur_addr := start priv, cur_end := start priv\<rparr>))
      else if cur_addr priv = cur_end priv then
        (if cur_chunk priv = chunk_nb priv \<or> snd bl < sizeof_chunk_header
         then (EFI_INVALID_PARAMETER, bl, priv)
         else
           let idx = unat (cur_chunk priv);
               chunk = chunks priv idx;
               new_end = cur_addr priv + ucast (chunk_sz chunk * EFI_PAGE_SIZE);
               priv1 = priv\<lparr>cur_chunk := cur_chunk priv + 1, cur_end := new_end\<rparr>;
               priv2 = (if chunk_type chunk \<noteq> CHUNK_TYPE_RAW
                        then priv1\<lparr>cur_addr := new_end\<rparr> else priv1)
           in (EFI_SUCCESS, (BUF_chunk idx, sizeof_chunk_header), priv2))
      else
        let n = min (snd bl) (cur_end priv - cur_addr priv)
        in (EFI_SUCCESS, (BUF_phys (cur_addr priv), n),
            priv\<lparr>cur_addr := cur_addr priv + n\<rparr>))"

text \<open>
  \<open>ram_close\<close> works on the structure \<open>ctx->private\<close> points to.  The result is \<open>None\<close>
  where that is not the static \<open>ram_priv\<close>: the pointer of a context whose \<open>ram_open\<close>
  returned at line 216 or 219 is the one it had before the call.
\<close>

definition ram_close :: "reader_ctx \<Rightarrow> globals \<Rightarrow> globals option" where
  "ram_close ctx g =
     (case private_data ctx of
        PRIV_RAM \<Rightarrow>
          let g1 = FreePool PTR_ram_priv_chunks g
          in Some (g1\<lparr>static_ram_priv := (static_ram_priv g1)\<lparr>is_in_used := False\<rparr>\<rparr>)
      | _ \<Rightarrow> None)"

section \<open>Partition reader\<close>

definition PART_READER_BUF_SIZE :: UINTN where
  "PART_READER_BUF_SIZE = 10 * 1024 * 1024"

text \<open>
  \<open>part_open\<close>.  Outside the function are: whether \<open>AllocatePool\<close> and \<open>stra_to_str\<close>
  return a block, and what \<open>gpt_get_partition_by_label\<close> returns (its status and the
  partition).  \<open>argv ! 0\<close> stands for the label; the offset and the length are read by
  \<open>strtoul(arg, NULL, 16)\<close>, whose end pointer is not looked at.  The source's variable
  \<open>length\<close> is \<open>length_total\<close> here.
\<close>

definition part_open ::
  "reader_ctx \<Rightarrow> strtoul_result list \<Rightarrow> bool \<Rightarrow> bool \<Rightarrow>
   EFI_STATUS \<times> gpt_partition_interface \<Rightarrow> globals \<Rightarrow> EFI_STATUS \<times> reader_ctx \<times> globals"
where
  "part_open ctx argv AllocatePool_ok stra_to_str_ok gpt_get_partition_by_label g =
     (let argc = length argv
      in if argc < 1 \<or> argc > 3 then (EFI_INVALID_PARAMETER, ctx, g)
         else if \<not> AllocatePool_ok then (EFI_OUT_OF_RESOURCES, ctx\<lparr>private_data := PRIV_NULL\<rparr>, g)
         else if \<not> stra_to_str_ok
         then (EFI_INVALID_PARAMETER, ctx\<lparr>private_data := PRIV_FREED\<rparr>, FreePool PTR_part_priv g)
         else
           let g1 = FreePool PTR_partname g;
               ret = fst gpt_get_partition_by_label;
               gp = snd gpt_get_partition_by_label
           in if EFI_ERROR ret
              then (ret, ctx\<lparr>private_data := PRIV_FREED\<rparr>, FreePool PTR_part_priv g1)
              else
                let off = starting_lba gp * ucast (BlockSize gp);
                    length_total = (ending_lba gp + 1 - starting_lba gp) * ucast (BlockSize gp);
                    ctx1 = ctx\<lparr>cur := 0, len := length_total\<rparr>;
                    ctx2 = (if argc > 1 then ctx1\<lparr>cur := fst (argv ! 1)\<rparr> else ctx1)
                in if argc > 1 \<and> cur ctx2 \<ge> length_total
                   then (EFI_INVALID_PARAMETER, ctx2\<lparr>private_data := PRIV_FREED\<rparr>,
                         FreePool PTR_part_priv g1)
                   else
                     let ctx3 = (if argc = 3 then ctx2\<lparr>len := fst (argv ! 2)\<rparr> else ctx2)
                     in if argc = 3 \<and>
                           (len ctx3 = 0 \<or> len ctx3 > length_total \<or>
                            cur ctx3 \<ge> length_total - len ctx3)
                        then (EFI_INVALID_PARAMETER, ctx3\<lparr>private_data := PRIV_FREED\<rparr>,
                              FreePool PTR_part_priv g1)
                        else (EFI_SUCCESS,
                              ctx3\<lparr>private_data :=
                                     PRIV_PART \<lparr>gparti = gp, need_more_data = True,
                                                buf_cur = 0, buf_len = 0, offset = off\<rparr>\<rparr>,
                              g1))"

text \<open>
  \<open>part_read\<close>; \<open>priv\<close> is the \<open>part_priv\<close> that \<open>ctx->private\<close> points to and
  \<open>ReadDisk\<close> the status of the disk read, when one is made.
\<close>

definition part_read ::
  "EFI_STATUS \<Rightarrow> reader_ctx \<Rightarrow> part_priv \<Rightarrow> buffer \<times> UINTN \<Rightarrow>
   EFI_STATUS \<times> (buffer \<times> UINTN) \<times> part_priv"
where
  "part_read ReadDisk ctx priv bl =
     (let priv1 = (if need_more_data priv
                   then priv\<lparr>buf_len := min PART_READER_BUF_SIZE (len ctx - cur ctx)\<rparr>
                   else priv)
      in if need_more_data priv \<and> EFI_ERROR ReadDisk then (ReadDisk, bl, priv1)
         else
           let priv2 = (if need_more_data priv
                        then priv1\<lparr>need_more_data := False, buf_cur := 0\<rparr> else priv1);
               n = min (snd bl) (buf_len priv2 - buf_cur priv2);
               priv3 = priv2\<lparr>buf_cur := buf_cur priv2 + n\<rparr>;
               priv4 = (if buf_cur priv3 = buf_len priv3
                        then priv3\<lparr>need_more_data := True\<rparr> else priv3)
           in (EFI_SUCCESS, (BUF_part (buf_cur priv2), n), priv4))"

section \<open>ACPI table and EFI variable readers\<close>

text \<open>
  \<open>acpi_open\<close>; \<open>get_acpi_table\<close> is what the lookup returns: its status and the
  \<open>length\<close> field of the table.
\<close>

definition acpi_open ::
  "reader_ctx \<Rightarrow> nat \<Rightarrow> EFI_STATUS \<times> UINT32 \<Rightarrow> EFI_STATUS \<times> reader_ctx"
where
  "acpi_open ctx argc get_acpi_table =
     (if argc \<noteq> 1 then (EFI_INVALID_PARAMETER, ctx)
      else if EFI_ERROR (fst get_acpi_table) then (fst get_acpi_table, ctx)
      else (EFI_SUCCESS,
            ctx\<lparr>private_data := PRIV_REGION, cur := 0, len := ucast (snd get_acpi_table)\<rparr>))"

text \<open>
  \<open>efivar_open\<close>.  Outside the function are: the status of \<open>stra_to_guid\<close>, whether
  \<open>stra_to_str\<close> returns a block, the status of \<open>efivar_find\<close>, and what
  \<open>get_efi_variable\<close> returns (its status and the size of the value).
\<close>

definition efivar_open ::
  "reader_ctx \<Rightarrow> nat \<Rightarrow> EFI_STATUS \<Rightarrow> bool \<Rightarrow> EFI_STATUS \<Rightarrow> EFI_STATUS \<times> UINTN \<Rightarrow> globals \<Rightarrow>
   EFI_STATUS \<times> reader_ctx \<times> globals"
where
  "efivar_open ctx argc stra_to_guid stra_to_str_ok efivar_find get_efi_variable g =
     (if argc \<noteq> 1 \<and> argc \<noteq> 2 then (EFI_INVALID_PARAMETER, ctx, g)
      else if argc = 2 \<and> EFI_ERROR stra_to_guid then (stra_to_guid, ctx, g)
      else if \<not> stra_to_str_ok then (EFI_OUT_OF_RESOURCES, ctx, g)
      else if argc = 1 \<and> EFI_ERROR efivar_find
      then (efivar_find, ctx, FreePool PTR_varname g)
      else if EFI_ERROR (fst get_efi_variable)
      then (fst get_efi_variable, ctx, FreePool PTR_varname g)
      else (fst get_efi_variable,
            ctx\<lparr>private_data := PRIV_REGION, cur := 0, len := snd get_efi_variable\<rparr>,
            FreePool PTR_varname g))"

section \<open>Interface\<close>

definition read_from_private ::
  "reader_ctx \<Rightarrow> buffer \<times> UINTN \<Rightarrow> EFI_STATUS \<times> (buffer \<times> UINTN)"
where
  "read_from_private ctx bl = (EFI_SUCCESS, (BUF_private (cur ctx), snd bl))"

definition free_private :: "reader_ctx \<Rightarrow> globals \<Rightarrow> globals" where
  "free_private ctx g = FreePool (PTR_private (private_data ctx)) g"

text \<open>
  \<open>reader_read\<close>, for non-null \<open>ctx\<close> and \<open>len\<close> pointers.  The pair \<open>bl\<close> is
  \<open>(*buf, *len)\<close> at the call and in the result.  The result is \<open>None\<close> where the
  reader would use \<open>ctx->private\<close> as a structure it does not point to.
\<close>

definition reader_read ::
  "EFI_STATUS \<Rightarrow> reader_ctx \<Rightarrow> globals \<Rightarrow> buffer \<times> UINTN \<Rightarrow>
   (EFI_STATUS \<times> (buffer \<times> UINTN) \<times> reader_ctx \<times> globals) option"
where
  "reader_read ReadDisk ctx g bl =
     (if snd bl = 0 \<or> reader ctx = None then Some (EFI_INVALID_PARAMETER, bl, ctx, g)
      else
        let bl1 = (fst bl, min (snd bl) (len ctx - cur ctx))
        in if snd bl1 = 0 then Some (EFI_SUCCESS, bl1, ctx, g)
           else
             (case reader ctx of
                None \<Rightarrow> None
              | Some Ram \<Rightarrow>
                  (case private_data ctx of
                     PRIV_RAM \<Rightarrow>
                       (case ram_read ctx (static_ram_priv g) bl1 of
                          (ret, bl2, priv') \<Rightarrow>
                            if EFI_ERROR ret
                            then Some (ret, bl2, ctx, g\<lparr>static_ram_priv := priv'\<rparr>)
                            else Some (EFI_SUCCESS, bl2, ctx\<lparr>cur := cur ctx + snd bl2\<rparr>,
                                       g\<lparr>static_ram_priv := priv'\<rparr>))
                   | _ \<Rightarrow> None)
              | Some Part \<Rightarrow>
                  (case private_data ctx of
                     PRIV_PART priv \<Rightarrow>
                       (case part_read ReadDisk ctx priv bl1 of
                          (ret, bl2, priv') \<Rightarrow>
                            if EFI_ERROR ret
                            then Some (ret, bl2, ctx\<lparr>private_data := PRIV_PART priv'\<rparr>, g)
                            else Some (EFI_SUCCESS, bl2,
                                       ctx\<lparr>private_data := PRIV_PART priv',
                                           cur := cur ctx + snd bl2\<rparr>, g))
                   | _ \<Rightarrow> None)
              | Some _ \<Rightarrow>
                  (case read_from_private ctx bl1 of
                     (ret, bl2) \<Rightarrow>
                       if EFI_ERROR ret then Some (ret, bl2, ctx, g)
                       else Some (EFI_SUCCESS, bl2, ctx\<lparr>cur := cur ctx + snd bl2\<rparr>, g))))"

text \<open>\<open>reader_close\<close>, for a non-null \<open>ctx\<close>; the ACPI reader has no \<open>close\<close>.\<close>

definition reader_close :: "reader_ctx \<Rightarrow> globals \<Rightarrow> globals option" where
  "reader_close ctx g =
     (case reader ctx of
        None \<Rightarrow> Some g
      | Some Ram \<Rightarrow> ram_close ctx g
      | Some Acpi \<Rightarrow> Some g
      | Some _ \<Rightarrow> Some (free_private ctx g))"

text \<open>
  The contexts a caller can hold after a successful open: \<open>reader_open\<close> stores the entry
  of \<open>READERS\<close> in \<open>ctx->reader\<close> and calls its \<open>open\<close>; then every \<open>reader_read\<close>,
  whatever it returns, leaves an opened context.
\<close>

inductive opened :: "reader_ctx \<Rightarrow> globals \<Rightarrow> bool" where
  opened_ram:
    "ram_open (ctx\<lparr>reader := Some Ram\<rparr>) argv GetMemoryMap g = Some (EFI_SUCCESS, ctx', g')
     \<Longrightarrow> opened ctx' g'"
| opened_acpi:
    "acpi_open (ctx\<lparr>reader := Some Acpi\<rparr>) argc get_acpi_table = (EFI_SUCCESS, ctx')
     \<Longrightarrow> opened ctx' g"
| opened_part:
    "part_open (ctx\<lparr>reader := Some Part\<rparr>) argv AllocatePool_ok stra_to_str_ok gpt g =
       (EFI_SUCCESS, ctx', g')
     \<Longrightarrow> opened ctx' g'"
| opened_efivar:
    "efivar_open (ctx\<lparr>reader := Some Efivar\<rparr>) argc stra_to_guid stra_to_str_ok efivar_find
       get_efi_variable g = (EFI_SUCCESS, ctx', g')
     \<Longrightarrow> opened ctx' g'"
| opened_read:
    "opened ctx g \<Longrightarrow> reader_read ReadDisk ctx g bl = Some (ret, bl', ctx', g')
     \<Longrightarrow> opened ctx' g'"

text \<open>
  The calls a client makes, seen from the RAM reader.  \<open>ram_streams g S\<close> holds when
  calls of the interface lead from a state without RAM stream, the flag clear as at
  program start, to the state \<open>g\<close> with the contexts \<open>S\<close> of the RAM streams that are
  open: those a \<open>reader_open\<close> returned with success and that were not closed since.
  The RAM reader may be opened at any time, with any context and arguments; so may the
  partition and the variable reader (the ACPI reader leaves the state as it is); every
  context may be read; and \<open>reader_close\<close> is called on an open RAM stream or on a
  context of another reader.  A \<open>reader_close\<close> on a RAM context that is not an open
  stream, one closed before or one whose \<open>ram_open\<close> failed, is not among these calls.
\<close>

inductive ram_streams :: "globals \<Rightarrow> reader_ctx list \<Rightarrow> bool" where
  streams_start:
    "\<not> is_in_used (static_ram_priv g) \<Longrightarrow> ram_streams g []"
| streams_open:
    "ram_streams g S \<Longrightarrow>
     ram_open (ctx\<lparr>reader := Some Ram\<rparr>) argv GetMemoryMap g = Some (ret, ctx', g') \<Longrightarrow>
     ram_streams g' (if ret = EFI_SUCCESS then ctx' # S else S)"
| streams_open_part:
    "ram_streams g S \<Longrightarrow>
     part_open (ctx\<lparr>reader := Some Part\<rparr>) argv AllocatePool_ok stra_to_str_ok gpt g =
       (ret, ctx', g') \<Longrightarrow>
     ram_streams g' S"
| streams_open_efivar:
    "ram_streams g S \<Longrightarrow>
     efivar_open (ctx\<lparr>reader := Some Efivar\<rparr>) argc stra_to_guid stra_to_str_ok efivar_find
       get_efi_variable g = (ret, ctx', g') \<Longrightarrow>
     ram_streams g' S"
| streams_read:
    "ram_streams g (S1 @ ctx # S2) \<Longrightarrow>
     reader_read ReadDisk ctx g bl = Some (ret, bl', ctx', g') \<Longrightarrow>
     ram_streams g' (S1 @ ctx' # S2)"
| streams_read_other:
    "ram_streams g S \<Longrightarrow> ctx \<notin> set S \<Longrightarrow>
     reader_read ReadDisk ctx g bl = Some (ret, bl', ctx', g') \<Longrightarrow>
     ram_streams g' S"
| streams_close:
    "ram_streams g (S1 @ ctx # S2) \<Longrightarrow> reader_close ctx g = Some g' \<Longrightarrow>
     ram_streams g' (S1 @ S2)"
| streams_close_other:
    "ram_streams g S \<Longrightarrow> reader ctx \<noteq> Some Ram \<Longrightarrow> reader_close ctx g = Some g' \<Longrightarrow>
     ram_streams g' S"

section \<open>Observations on the chunk plan\<close>

text \<open>
  The planned chunks, their types and block counts, the bytes of physical memory they
  stand for, and the sum of their \<open>total_sz\<close>.
\<close>

definition planned_chunks :: "ram_priv \<Rightarrow> chunk_header list" where
  "planned_chunks priv = map (chunks priv) [0..<unat (chunk_nb priv)]"

definition plan_shape :: "ram_priv \<Rightarrow> (UINT16 \<times> UINT32) list" where
  "plan_shape priv = map (\<lambda>c. (chunk_type c, chunk_sz c)) (planned_chunks priv)"

definition planned_bytes :: "ram_priv \<Rightarrow> nat" where
  "planned_bytes priv = (\<Sum>c\<leftarrow>planned_chunks priv. unat (chunk_sz c) * 4096)"

definition planned_total_sz :: "ram_priv \<Rightarrow> nat" where
  "planned_total_sz priv = (\<Sum>c\<leftarrow>planned_chunks priv. unat (total_sz c))"

text \<open>Where a descriptor ends, as the loop of \<open>ram_build_chunks\<close> computes it.\<close>

definition entry_end :: "EFI_MEMORY_DESCRIPTOR \<Rightarrow> EFI_PHYSICAL_ADDRESS" where
  "entry_end e = PhysicalStart e + NumberOfPages e * EFI_PAGE_SIZE"

text \<open>
  Descriptors in ascending order from \<open>pe\<close> on, none starting before the one before it
  ends, none wrapping around; and the end of the last one.
\<close>

fun no_overlap :: "EFI_PHYSICAL_ADDRESS \<Rightarrow> EFI_MEMORY_DESCRIPTOR list \<Rightarrow> bool" where
  "no_overlap pe [] = True"
| "no_overlap pe (e # es) =
     (pe \<le> PhysicalStart e \<and> PhysicalStart e \<le> entry_end e \<and> no_overlap (entry_end e) es)"

fun final_end ::
  "EFI_PHYSICAL_ADDRESS \<Rightarrow> EFI_MEMORY_DESCRIPTOR list \<Rightarrow> EFI_PHYSICAL_ADDRESS"
where
  "final_end pe [] = pe"
| "final_end pe (e # es) = final_end (entry_end e) es"

section \<open>Concrete inputs\<close>

text \<open>A descriptor of \<open>n\<close> pages of type \<open>t\<close> at the physical address \<open>s\<close>.\<close>

definition descriptor :: "UINT32 \<Rightarrow> UINT64 \<Rightarrow> UINT64 \<Rightarrow> EFI_MEMORY_DESCRIPTOR" where
  "descriptor t s n =
     \<lparr>Type = t, PhysicalStart = s, VirtualStart = 0, NumberOfPages = n, Attribute = 0\<rparr>"

text \<open>The context as \<open>reader_open\<close> hands it to the \<open>open\<close> of the reader \<open>r\<close>.\<close>

definition fresh_ctx :: "reader \<Rightarrow> reader_ctx" where
  "fresh_ctx r = \<lparr>reader = Some r, private_data = PRIV_NULL, cur = 0, len = 0\<rparr>"

text \<open>The state at program start: the static structure is zero and nothing was freed.\<close>

definition boot_globals :: globals where
  "boot_globals = \<lparr>static_ram_priv = zero_ram_priv, pool_freed = []\<rparr>"

text \<open>A firmware map of one conventional region of 16 pages at address 0.\<close>

definition one_region_map :: "EFI_STATUS \<times> EFI_MEMORY_DESCRIPTOR list" where
  "one_region_map = (EFI_SUCCESS, [descriptor 7 0 16])"

text \<open>
  What a call of \<open>ram_open\<close> leaves: its status (\<open>None\<close> where the call is undefined),
  the context and the globals.
\<close>

definition status_of :: "(EFI_STATUS \<times> reader_ctx \<times> globals) option \<Rightarrow> EFI_STATUS option" where
  "status_of r = map_option fst r"

definition ctx_of :: "(EFI_STATUS \<times> reader_ctx \<times> globals) option \<Rightarrow> reader_ctx" where
  "ctx_of r = fst (snd (the r))"

definition globals_of :: "(EFI_STATUS \<times> reader_ctx \<times> globals) option \<Rightarrow> globals" where
  "globals_of r = snd (snd (the r))"

definition priv_of :: "(EFI_STATUS \<times> reader_ctx \<times> globals) option \<Rightarrow> ram_priv" where
  "priv_of r = static_ram_priv (globals_of r)"

text \<open>
  One \<open>reader_read\<close> with \<open>max_len\<close> bytes offered, on a context and the globals: the
  state it leaves (the one it found where the call is undefined), and what it returns:
  the status, the buffer and the count.
\<close>

definition read_step :: "UINTN \<Rightarrow> reader_ctx \<times> globals \<Rightarrow> reader_ctx \<times> globals" where
  "read_step max_len s =
     (case reader_read EFI_SUCCESS (fst s) (snd s) (BUF_NONE, max_len) of
        Some (ret, bl, ctx', g') \<Rightarrow> (ctx', g')
      | None \<Rightarrow> s)"

definition read_result ::
  "UINTN \<Rightarrow> reader_ctx \<times> globals \<Rightarrow> (EFI_STATUS \<times> buffer \<times> UINTN) option"
where
  "read_result max_len s =
     map_option (\<lambda>r. (fst r, fst (snd r)))
       (reader_read EFI_SUCCESS (fst s) (snd s) (BUF_NONE, max_len))"

text \<open>
  The RAM stream of a firmware map of one conventional region of 4 GiB (\<open>0x100000\<close>
  pages) at address 0, opened without argument at program start.
\<close>

definition large_region_map :: "EFI_STATUS \<times> EFI_MEMORY_DESCRIPTOR list" where
  "large_region_map = (EFI_SUCCESS, [descriptor 7 0 0x100000])"

definition large_stream :: "reader_ctx \<times> globals" where
  "large_stream =
     (ctx_of (ram_open (fresh_ctx Ram) [] large_region_map boot_globals),
      globals_of (ram_open (fresh_ctx Ram) [] large_region_map boot_globals))"

text \<open>
  A partition of 8 blocks of 512 bytes opened with the offset \<open>0x800\<close> and the length
  \<open>0x400\<close>: the status, the context and the globals that \<open>part_open\<close> returns.
\<close>

definition part_stream :: "EFI_STATUS \<times> reader_ctx \<times> globals" where
  "part_stream =
     part_open (fresh_ctx Part) [(0, False), (0x800, True), (0x400, True)] True True
       (EFI_SUCCESS, \<lparr>starting_lba = 0, ending_lba = 7, BlockSize = 512\<rparr>) boot_globals"

text \<open>
  Two RAM streams, \<open>A\<close> and \<open>B\<close>, on \<open>one_region_map\<close>: \<open>A\<close> is opened at program
  start and closed, then \<open>B\<close> is opened, then the context of \<open>A\<close> is closed once more.
\<close>

definition stream_A :: "(EFI_STATUS \<times> reader_ctx \<times> globals) option" where
  "stream_A = ram_open (fresh_ctx Ram) [] one_region_map boot_globals"

definition stream_B :: "(EFI_STATUS \<times> reader_ctx \<times> globals) option" where
  "stream_B =
     ram_open (fresh_ctx Ram) [] one_region_map
       (the (reader_close (ctx_of stream_A) (globals_of stream_A)))"

definition A_closed_again :: "globals option" where
  "A_closed_again = reader_close (ctx_of stream_A) (globals_of stream_B)"

section \<open>Invariants\<close>

text \<open>What building the chunk plan leaves as it is, in the context and in \<open>ram_priv\<close>.\<close>

definition kept :: "reader_ctx \<Rightarrow> ram_priv \<Rightarrow> reader_ctx \<Rightarrow> ram_priv \<Rightarrow> bool" where
  "kept ctx priv ctx' priv' \<longleftrightarrow>
     reader ctx' = reader ctx \<and> private_data ctx' = private_data ctx \<and> cur ctx' = cur ctx \<and>
     is_in_used priv' = is_in_used priv \<and> start priv' = start priv \<and>
     end_addr priv' = end_addr priv \<and> memmap priv' = memmap priv"

definition step_kept :: "reader_ctx \<Rightarrow> ram_priv \<Rightarrow> step \<Rightarrow> bool" where
  "step_kept ctx priv s =
     (case s of Next c p \<Rightarrow> kept ctx priv c p | Break c p \<Rightarrow> kept ctx priv c p
              | Err r c p \<Rightarrow> kept ctx priv c p)"

text \<open>
  What holds of every opened context: it has a reader, and the bounce buffer of a
  partition reader is either due for a refill or not used up.
\<close>

definition ctx_ok :: "reader_ctx \<Rightarrow> bool" where
  "ctx_ok ctx \<longleftrightarrow>
     reader ctx \<noteq> None \<and>
     (reader ctx = Some Part \<longrightarrow>
        (\<exists>p. private_data ctx = PRIV_PART p \<and> (need_more_data p \<or> buf_cur p < buf_len p)))"

text \<open>
  The values \<open>ret\<close> can have at the label \<open>err\<close> of \<open>ram_build_chunks\<close> within \<open>n\<close>
  more chunks; the last one only when the chunk array is full.
\<close>

definition plan_error :: "ram_priv \<Rightarrow> nat \<Rightarrow> EFI_STATUS \<Rightarrow> bool" where
  "plan_error priv n r \<longleftrightarrow>
     r = EFI_SUCCESS \<or> r = EFI_INVALID_PARAMETER \<or>
     (r = EFI_OUT_OF_RESOURCES \<and> 256 < unat (chunk_nb priv) + n)"

definition grown :: "reader_ctx \<Rightarrow> ram_priv \<Rightarrow> reader_ctx \<Rightarrow> ram_priv \<Rightarrow> nat \<Rightarrow> bool" where
  "grown ctx priv ctx' priv' n \<longleftrightarrow>
     kept ctx priv ctx' priv' \<and> unat (chunk_nb priv') \<le> unat (chunk_nb priv) + n"

text \<open>
  The header agrees with the planned chunks, in the 32 bits of its fields: the count of
  chunks, the sum of the block counts and the sum of the \<open>total_sz\<close>, which is the low
  half of \<open>ctx->len\<close>.
\<close>

definition header_consistent :: "reader_ctx \<Rightarrow> ram_priv \<Rightarrow> bool" where
  "header_consistent ctx priv \<longleftrightarrow>
     unat (chunk_nb priv) \<le> 256 \<and>
     total_chunks (sheader priv) = ucast (chunk_nb priv) \<and>
     total_blks (sheader priv) = sum_list (map chunk_sz (planned_chunks priv)) \<and>
     (ucast (len ctx) :: UINT32) = sum_list (map total_sz (planned_chunks priv))"

definition step_state :: "step \<Rightarrow> reader_ctx \<times> ram_priv" where
  "step_state s =
     (case s of Next c p \<Rightarrow> (c, p) | Break c p \<Rightarrow> (c, p) | Err r c p \<Rightarrow> (c, p))"

text \<open>
  The blocks planned so far are those of \<open>[start, pos)\<close>; and, between two rounds of
  the loop with \<open>prev_end = pe\<close>, those of \<open>[start, pe)\<close> once \<open>pe\<close> is above
  \<open>start\<close>, with nothing planned before.
\<close>

definition blocks_to :: "ram_priv \<Rightarrow> EFI_PHYSICAL_ADDRESS \<Rightarrow> bool" where
  "blocks_to priv pos \<longleftrightarrow>
     (pos - start priv) mod EFI_PAGE_SIZE = 0 \<and>
     total_blks (sheader priv) = ucast ((pos - start priv) div EFI_PAGE_SIZE)"

definition walk_inv :: "reader_ctx \<Rightarrow> ram_priv \<Rightarrow> EFI_PHYSICAL_ADDRESS \<Rightarrow> bool" where
  "walk_inv ctx priv pe \<longleftrightarrow>
     blocks_to priv (max (start priv) pe) \<and> (pe \<le> start priv \<longrightarrow> len ctx = 0)"

text \<open>
  No descriptor that has a hole before it holds \<open>s\<close>: the case in which the loop plans a
  hole that lies below the window.
\<close>

fun start_ok ::
  "EFI_PHYSICAL_ADDRESS \<Rightarrow> EFI_PHYSICAL_ADDRESS \<Rightarrow> EFI_MEMORY_DESCRIPTOR list \<Rightarrow> bool"
where
  "start_ok s pe [] = True"
| "start_ok s pe (e # es) =
     (\<not> (pe < PhysicalStart e \<and> PhysicalStart e \<le> s \<and> s < entry_end e) \<and>
      start_ok s (entry_end e) es)"

text \<open>
  Between two passes of the bubble sort over the first \<open>n\<close> descriptors: those from
  \<open>n\<close> on are in ascending order of \<open>PhysicalStart\<close> and none of them is below one of
  the first \<open>n\<close>.
\<close>

definition sort_inv :: "EFI_MEMORY_DESCRIPTOR list \<Rightarrow> nat \<Rightarrow> bool" where
  "sort_inv xs n \<longleftrightarrow>
     n \<le> length xs \<and>
     (\<forall>j k. n \<le> j \<and> j \<le> k \<and> k < length xs \<longrightarrow>
        PhysicalStart (xs ! j) \<le> PhysicalStart (xs ! k)) \<and>
     (\<forall>j k. j < n \<and> n \<le> k \<and> k < length xs \<longrightarrow>
        PhysicalStart (xs ! j) \<le> PhysicalStart (xs ! k))"

section \<open>Word arithmetic\<close>

lemma word_advance_le: "(a::'a::len word) < b \<Longrightarrow> n \<le> b - a \<Longrightarrow> a + n \<le> b"
  by unat_arith

lemma word_sub_nonzero: "(a::'a::len word) < b \<Longrightarrow> b - a \<noteq> 0"
  by unat_arith

lemma word_advance_exact:
  "(c::'a::len word) \<le> l \<Longrightarrow> n \<le> l - c \<Longrightarrow>
   c + n \<le> l \<and> unat (c + n) = unat c + unat n"
  by unat_arith

lemma unat_ucast_32_64: "unat (ucast (x :: 32 word) :: 64 word) = unat x"
  by (simp add: unsigned_ucast_eq take_bit_nat_eq_self_iff)
     (use unsigned_less [of x, where ?'a = nat] in simp)

lemma blocks_no_wrap:
  fixes x :: "32 word"
  assumes "unat x < 2 ^ 20"
  shows "(ucast (x * 4096) :: 64 word) = ucast x * 4096"
proof -
  have a: "unat (x * 4096) = unat x * 4096"
    using assms by (simp add: unat_word_ariths)
  have "unat ((ucast x :: 64 word) * 4096) = unat x * 4096"
    using assms by (simp add: unat_word_ariths unat_ucast_32_64)
  with a show ?thesis
    by (simp add: word_unat_eq_iff unat_ucast_32_64)
qed

section \<open>The bubble sort\<close>

text \<open>
  On a map that is not empty, \<open>sort_memory_map\<close> returns the descriptors of the map in
  ascending order of \<open>PhysicalStart\<close>.
\<close>

lemma sort_pass_length:
  "sort_pass xs n i sw = (ys, sw') \<Longrightarrow> length ys = length xs"
proof (induction xs n i sw rule: sort_pass.induct)
  case (1 entries nr_entries i swapped)
  then show ?case
    by (subst (asm) (3) sort_pass.simps) (auto split: if_splits)
qed

lemma sort_pass_mset:
  "n \<le> length xs \<Longrightarrow> sort_pass xs n i sw = (ys, sw') \<Longrightarrow> mset ys = mset xs"
proof (induction xs n i sw rule: sort_pass.induct)
  case (1 entries nr_entries i swapped)
  show ?case
  proof (cases "i < nr_entries - 1")
    case False
    with "1.prems" show ?thesis by (simp add: sort_pass.simps)
  next
    case True
    with "1.prems"(1) have b: "i < length entries" "i + 1 < length entries" by simp_all
    show ?thesis
    proof (cases "PhysicalStart (entries ! i) > PhysicalStart (entries ! (i + 1))")
      case sw: True
      let ?xs = "entries[i := entries ! (i + 1), i + 1 := entries ! i]"
      from "1.prems"(2) True sw have "sort_pass ?xs nr_entries (i + 1) True = (ys, sw')"
        by (subst (asm) sort_pass.simps) simp
      from "1.IH"(1) [OF True sw _ this] "1.prems"(1) have "mset ys = mset ?xs" by simp
      also have "mset ?xs = mset entries"
        using mset_swap [OF b(2) b(1)] by simp
      finally show ?thesis .
    next
      case ns: False
      from "1.prems"(2) True ns have "sort_pass entries nr_entries (i + 1) swapped = (ys, sw')"
        by (subst (asm) sort_pass.simps) simp
      from "1.IH"(2) [OF True ns "1.prems"(1) this] show ?thesis .
    qed
  qed
qed


text \<open>One round of the inner loop and the rest of the pass after it.\<close>

lemma sort_pass_stop: "\<not> i < n - 1 \<Longrightarrow> sort_pass xs n i sw = (xs, sw)"
  by (simp add: sort_pass.simps)

lemma sort_pass_swap:
  "i < n - 1 \<Longrightarrow> PhysicalStart (xs ! i) > PhysicalStart (xs ! (i + 1)) \<Longrightarrow>
   sort_pass xs n i sw = sort_pass (xs[i := xs ! (i + 1), i + 1 := xs ! i]) n (i + 1) True"
  by (subst sort_pass.simps) simp

lemma sort_pass_keep:
  "i < n - 1 \<Longrightarrow> \<not> PhysicalStart (xs ! i) > PhysicalStart (xs ! (i + 1)) \<Longrightarrow>
   sort_pass xs n i sw = sort_pass xs n (i + 1) sw"
  by (subst sort_pass.simps) simp

lemma sort_pass_outside:
  "sort_pass xs n i sw = (ys, sw') \<Longrightarrow> j < i \<or> n \<le> j \<Longrightarrow> ys ! j = xs ! j"
proof (induction xs n i sw rule: sort_pass.induct)
  case (1 xs n i sw)
  show ?case
  proof (cases "i < n - 1")
    case False
    with "1.prems" show ?thesis by (simp add: sort_pass_stop)
  next
    case True
    show ?thesis
    proof (cases "PhysicalStart (xs ! i) > PhysicalStart (xs ! (i + 1))")
      case sw: True
      from "1.prems"(1) have "sort_pass (xs[i := xs ! (i + 1), i + 1 := xs ! i]) n (i + 1) True
          = (ys, sw')"
        by (simp add: sort_pass_swap [OF True sw])
      from "1.IH"(1) [OF True sw this] "1.prems"(2) True show ?thesis by auto
    next
      case ns: False
      from "1.prems"(1) have "sort_pass xs n (i + 1) sw = (ys, sw')"
        by (simp add: sort_pass_keep [OF True ns])
      from "1.IH"(2) [OF True ns this] "1.prems"(2) show ?thesis by auto
    qed
  qed
qed

lemma sort_pass_quiet:
  "sort_pass xs n i sw = (ys, sw') \<Longrightarrow> \<not> sw' \<Longrightarrow>
   ys = xs \<and> (\<forall>j. i \<le> j \<and> j + 1 < n \<longrightarrow> PhysicalStart (xs ! j) \<le> PhysicalStart (xs ! (j + 1)))"
proof (induction xs n i sw rule: sort_pass.induct)
  case (1 xs n i sw)
  show ?case
  proof (cases "i < n - 1")
    case False
    with "1.prems" show ?thesis by (auto simp: sort_pass_stop)
  next
    case True
    show ?thesis
    proof (cases "PhysicalStart (xs ! i) > PhysicalStart (xs ! (i + 1))")
      case sw: True
      from "1.prems"(1) have p: "sort_pass (xs[i := xs ! (i + 1), i + 1 := xs ! i]) n (i + 1) True
          = (ys, sw')"
        by (simp add: sort_pass_swap [OF True sw])
      have "sw'" if "sort_pass zs n k True = (ys, sw')" for zs k
        using that
      proof (induction zs n k "True" rule: sort_pass.induct)
        case (1 zs m k)
        then show ?case
          by (subst (asm) (3) sort_pass.simps) (auto split: if_splits)
      qed
      with p "1.prems"(2) show ?thesis by blast
    next
      case ns: False
      from "1.prems"(1) have p: "sort_pass xs n (i + 1) sw = (ys, sw')"
        by (simp add: sort_pass_keep [OF True ns])
      from "1.IH"(2) [OF True ns p "1.prems"(2)] ns
      have "ys = xs" and r: "\<forall>j. i + 1 \<le> j \<and> j + 1 < n \<longrightarrow>
          PhysicalStart (xs ! j) \<le> PhysicalStart (xs ! (j + 1))"
        by simp_all
      have "PhysicalStart (xs ! j) \<le> PhysicalStart (xs ! (j + 1))" if "i \<le> j" "j + 1 < n" for j
      proof (cases "j = i")
        case True
        with ns show ?thesis by simp
      next
        case False
        with that r show ?thesis by simp
      qed
      with \<open>ys = xs\<close> show ?thesis by simp
    qed
  qed
qed


lemma sort_pass_from:
  "sort_pass xs n i sw = (ys, sw') \<Longrightarrow> i \<le> j \<Longrightarrow> j < n \<Longrightarrow> n \<le> length xs \<Longrightarrow>
   \<exists>k. i \<le> k \<and> k < n \<and> ys ! j = xs ! k"
proof (induction xs n i sw arbitrary: j rule: sort_pass.induct)
  case (1 xs n i sw)
  show ?case
  proof (cases "i < n - 1")
    case False
    with "1.prems" show ?thesis by (auto simp: sort_pass_stop)
  next
    case True
    show ?thesis
    proof (cases "j = i")
      case ji: True
      from sort_pass_outside [OF "1.prems"(1), of i] have "ys ! i = xs ! i \<or> True" by simp
      show ?thesis
      proof (cases "PhysicalStart (xs ! i) > PhysicalStart (xs ! (i + 1))")
        case sw: True
        let ?xs = "xs[i := xs ! (i + 1), i + 1 := xs ! i]"
        from "1.prems"(1) have p: "sort_pass ?xs n (i + 1) True = (ys, sw')"
          by (simp add: sort_pass_swap [OF True sw])
        from sort_pass_outside [OF p, of i] have "ys ! i = ?xs ! i" by simp
        also from True "1.prems"(4) have "?xs ! i = xs ! (i + 1)" by simp
        finally have "ys ! j = xs ! (i + 1)" using ji by simp
        moreover from True have "i \<le> i + 1" "i + 1 < n" by simp_all
        ultimately show ?thesis by blast
      next
        case ns: False
        from "1.prems"(1) have p: "sort_pass xs n (i + 1) sw = (ys, sw')"
          by (simp add: sort_pass_keep [OF True ns])
        from sort_pass_outside [OF p, of i] ji "1.prems"(3) show ?thesis by auto
      qed
    next
      case False
      with "1.prems"(2) have j: "i + 1 \<le> j" by simp
      show ?thesis
      proof (cases "PhysicalStart (xs ! i) > PhysicalStart (xs ! (i + 1))")
        case sw: True
        let ?xs = "xs[i := xs ! (i + 1), i + 1 := xs ! i]"
        from "1.prems"(1) have p: "sort_pass ?xs n (i + 1) True = (ys, sw')"
          by (simp add: sort_pass_swap [OF True sw])
        from "1.IH"(1) [OF True sw p j "1.prems"(3)] "1.prems"(4)
        obtain k where k: "i + 1 \<le> k" "k < n" "ys ! j = ?xs ! k" by auto
        show ?thesis
        proof (cases "k = i + 1")
          case True
          with k "1.prems"(4) have "ys ! j = xs ! i" by simp
          moreover from "1.prems"(3) j have "i \<le> i" "i < n" by simp_all
          ultimately show ?thesis by blast
        next
          case False
          with k have "ys ! j = xs ! k" by simp
          moreover from k have "i \<le> k" "k < n" by simp_all
          ultimately show ?thesis by blast
        qed
      next
        case ns: False
        from "1.prems"(1) have p: "sort_pass xs n (i + 1) sw = (ys, sw')"
          by (simp add: sort_pass_keep [OF True ns])
        from "1.IH"(2) [OF True ns p j "1.prems"(3,4)]
        obtain k where "i + 1 \<le> k" "k < n" "ys ! j = xs ! k" by auto
        then have "i \<le> k \<and> k < n \<and> ys ! j = xs ! k" by simp
        then show ?thesis by blast
      qed
    qed
  qed
qed

lemma sort_pass_max:
  "sort_pass xs n i sw = (ys, sw') \<Longrightarrow> i \<le> j \<Longrightarrow> j < n \<Longrightarrow> n \<le> length xs \<Longrightarrow>
   PhysicalStart (xs ! j) \<le> PhysicalStart (ys ! (n - 1))"
proof (induction xs n i sw arbitrary: j rule: sort_pass.induct)
  case (1 xs n i sw)
  show ?case
  proof (cases "i < n - 1")
    case False
    with "1.prems" have "j = n - 1" by simp
    with False "1.prems" show ?thesis by (simp add: sort_pass_stop)
  next
    case True
    show ?thesis
    proof (cases "PhysicalStart (xs ! i) > PhysicalStart (xs ! (i + 1))")
      case sw: True
      let ?xs = "xs[i := xs ! (i + 1), i + 1 := xs ! i]"
      from "1.prems"(1) have p: "sort_pass ?xs n (i + 1) True = (ys, sw')"
        by (simp add: sort_pass_swap [OF True sw])
      have ih: "PhysicalStart (?xs ! k) \<le> PhysicalStart (ys ! (n - 1))"
        if "i + 1 \<le> k" "k < n" for k
        using "1.IH"(1) [OF True sw p that] "1.prems"(4) by simp
      from ih [of "i + 1"] True "1.prems"(4)
      have top: "PhysicalStart (xs ! i) \<le> PhysicalStart (ys ! (n - 1))" by simp
      show ?thesis
      proof (cases "j = i")
        case True
        with top show ?thesis by simp
      next
        case ji: False
        show ?thesis
        proof (cases "j = i + 1")
          case True
          with sw top show ?thesis by simp
        next
          case False
          with ji "1.prems"(2) have "i + 1 \<le> j" by simp
          from ih [OF this "1.prems"(3)] ji False show ?thesis by simp
        qed
      qed
    next
      case ns: False
      from "1.prems"(1) have p: "sort_pass xs n (i + 1) sw = (ys, sw')"
        by (simp add: sort_pass_keep [OF True ns])
      have ih: "PhysicalStart (xs ! k) \<le> PhysicalStart (ys ! (n - 1))"
        if "i + 1 \<le> k" "k < n" for k
        using "1.IH"(2) [OF True ns p that "1.prems"(4)] .
      show ?thesis
      proof (cases "j = i")
        case ji: True
        from True have "i + 1 < n" by simp
        from ih [OF _ this] have "PhysicalStart (xs ! (i + 1)) \<le> PhysicalStart (ys ! (n - 1))"
          by simp
        moreover from ns have "PhysicalStart (xs ! i) \<le> PhysicalStart (xs ! (i + 1))"
          by simp
        ultimately have "PhysicalStart (xs ! i) \<le> PhysicalStart (ys ! (n - 1))"
          by (rule order_trans [rotated])
        with ji show ?thesis by simp
      next
        case False
        with "1.prems"(2) have "i + 1 \<le> j" by simp
        from ih [OF this "1.prems"(3)] show ?thesis .
      qed
    qed
  qed
qed

lemma sort_pass_swapped:
  "sort_pass xs n i sw = (ys, sw') \<Longrightarrow> sw' \<Longrightarrow> sw \<or> i < n - 1"
  by (cases "i < n - 1") (auto simp: sort_pass_stop)


lemma sort_inv_pass:
  assumes inv: "sort_inv xs n" and n: "1 < n" and p: "sort_pass xs n 0 False = (ys, sw)"
  shows "sort_inv ys (n - 1)"
proof -
  from inv have le: "n \<le> length xs" by (simp add: sort_inv_def)
  note len = sort_pass_length [OF p]
  have out: "ys ! k = xs ! k" if "n \<le> k" for k
    using sort_pass_outside [OF p, of k] that by simp
  have src: "\<exists>m<n. ys ! j = xs ! m" if "j < n" for j
    using sort_pass_from [OF p _ that le] by auto
  have top: "PhysicalStart (ys ! j) \<le> PhysicalStart (ys ! (n - 1))" if "j < n" for j
  proof -
    from src [OF that] obtain m where m: "m < n" "ys ! j = xs ! m" by blast
    from sort_pass_max [OF p _ m(1) le] m(2) show ?thesis by simp
  qed
  have up: "PhysicalStart (ys ! j) \<le> PhysicalStart (ys ! k)"
    if "j < n" "n \<le> k" "k < length xs" for j k
  proof -
    from src [OF that(1)] obtain m where m: "m < n" "ys ! j = xs ! m" by blast
    from inv m(1) that(2,3) have "PhysicalStart (xs ! m) \<le> PhysicalStart (xs ! k)"
      by (simp add: sort_inv_def)
    with m(2) out [OF that(2)] show ?thesis by simp
  qed
  have suffix: "PhysicalStart (ys ! j) \<le> PhysicalStart (ys ! k)"
    if "n - 1 \<le> j" "j \<le> k" "k < length ys" for j k
  proof (cases "n \<le> j")
    case True
    with that have "n \<le> k" by simp
    from inv True that len have "PhysicalStart (xs ! j) \<le> PhysicalStart (xs ! k)"
      by (simp add: sort_inv_def)
    with out [OF True] out [OF \<open>n \<le> k\<close>] show ?thesis by simp
  next
    case False
    with that(1) n have j: "j = n - 1" "j < n" by simp_all
    show ?thesis
    proof (cases "k = j")
      case True
      then show ?thesis by simp
    next
      case False
      with that(2) j have "n \<le> k" by simp
      from up [OF j(2) this] that(3) len show ?thesis by simp
    qed
  qed
  have prefix: "PhysicalStart (ys ! j) \<le> PhysicalStart (ys ! k)"
    if "j < n - 1" "n - 1 \<le> k" "k < length ys" for j k
  proof (cases "n \<le> k")
    case True
    from that(1) have "j < n" by simp
    from up [OF this True] that(3) len show ?thesis by simp
  next
    case False
    with that(2) have "k = n - 1" by simp
    moreover from that(1) have "j < n" by simp
    ultimately show ?thesis using top by simp
  qed
  from le len suffix prefix show ?thesis
    by (simp add: sort_inv_def)
qed

lemma sort_inv_sorted:
  assumes inv: "sort_inv xs n"
    and adj: "\<forall>j. j + 1 < n \<longrightarrow> PhysicalStart (xs ! j) \<le> PhysicalStart (xs ! (j + 1))"
  shows "sorted (map PhysicalStart xs)"
proof -
  have "map PhysicalStart xs ! i \<le> map PhysicalStart xs ! Suc i"
    if "Suc i < length (map PhysicalStart xs)" for i
  proof -
    from that have l: "Suc i < length xs" by simp
    have "PhysicalStart (xs ! i) \<le> PhysicalStart (xs ! Suc i)"
    proof (cases "Suc i < n")
      case True
      with adj show ?thesis by simp
    next
      case False
      show ?thesis
      proof (cases "i < n")
        case True
        with False inv l show ?thesis by (simp add: sort_inv_def)
      next
        case False
        with inv l show ?thesis by (simp add: sort_inv_def)
      qed
    qed
    with l show ?thesis by simp
  qed
  then show ?thesis by (simp add: sorted_iff_nth_Suc)
qed

lemma sort_memory_map_inv:
  assumes "sort_inv xs n" and "0 < n"
  shows "\<exists>ys. sort_memory_map xs n = Some ys \<and> mset ys = mset xs \<and>
           sorted (map PhysicalStart ys)"
  using assms
proof (induction xs n rule: sort_memory_map.induct)
  case (1 xs n)
  obtain ys sw where p: "sort_pass xs n 0 False = (ys, sw)" by (cases "sort_pass xs n 0 False")
  from "1.prems"(1) have le: "n \<le> length xs" by (simp add: sort_inv_def)
  show ?case
  proof (cases sw)
    case False
    from sort_pass_quiet [OF p] False have q: "ys = xs"
      "\<forall>j. j + 1 < n \<longrightarrow> PhysicalStart (xs ! j) \<le> PhysicalStart (xs ! (j + 1))"
      by simp_all
    from sort_inv_sorted [OF "1.prems"(1) q(2)] p False q(1) "1.prems"(2) show ?thesis
      by (subst sort_memory_map.simps) simp
  next
    case True
    from sort_pass_swapped [OF p] True have n: "1 < n" by simp
    from sort_inv_pass [OF "1.prems"(1) n p] have inv': "sort_inv ys (n - 1)" .
    from n have ne: "n \<noteq> 0" "0 < n - 1" by simp_all
    from "1.IH" [OF ne(1) p [symmetric] True inv' ne(2)]
    obtain zs where z: "sort_memory_map ys (n - 1) = Some zs" "mset zs = mset ys"
      "sorted (map PhysicalStart zs)" by blast
    from sort_pass_mset [OF le p] z(2) have "mset zs = mset xs" by simp
    with z p True ne show ?thesis
      by (subst sort_memory_map.simps) simp
  qed
qed

lemma sort_memory_map_sorts:
  assumes "xs \<noteq> []"
  shows "\<exists>ys. sort_memory_map xs (length xs) = Some ys \<and> mset ys = mset xs \<and>
           sorted (map PhysicalStart ys)"
proof -
  have "sort_inv xs (length xs)" by (auto simp: sort_inv_def)
  moreover from assms have "0 < length xs" by simp
  ultimately show ?thesis by (rule sort_memory_map_inv)
qed

lemma sort_memory_map_empty: "sort_memory_map [] (length []) = None"
  by (simp add: sort_memory_map.simps)


section \<open>What plan building leaves unchanged\<close>

lemma kept_refl [simp]: "kept ctx priv ctx priv"
  by (simp add: kept_def)

lemma kept_trans: "kept c p c' p' \<Longrightarrow> kept c' p' c'' p'' \<Longrightarrow> kept c p c'' p''"
  by (simp add: kept_def)

lemma ram_add_chunk_kept:
  "ram_add_chunk ctx priv t sz = (ret, ctx', priv') \<Longrightarrow> kept ctx priv ctx' priv'"
  by (auto simp: ram_add_chunk_def kept_def Let_def split: if_splits)

lemma entry_chunk_kept: "step_kept ctx priv (entry_chunk ctx priv e)"
  by (auto simp: entry_chunk_def step_kept_def Let_def split: prod.splits
      dest: ram_add_chunk_kept)

lemma build_step_kept: "step_kept ctx priv (build_step ctx priv pe e)"
proof -
  have "step_kept ctx priv (entry_chunk c p e)" if "kept ctx priv c p" for c p
    using entry_chunk_kept [of c p e] that
    by (auto simp: step_kept_def split: step.splits intro: kept_trans)
  then show ?thesis
    unfolding build_step_def Let_def
    by (auto simp: step_kept_def entry_chunk_kept [unfolded step_kept_def]
        split: prod.splits dest!: ram_add_chunk_kept)
qed

lemma build_loop_kept:
  "build_loop es pe ctx priv = (ex, pe', ctx', priv') \<Longrightarrow> kept ctx priv ctx' priv'"
proof (induction es arbitrary: pe ctx priv)
  case Nil
  then show ?case by simp
next
  case (Cons e es)
  from build_step_kept [of ctx priv pe e] Cons show ?case
    by (auto simp: step_kept_def split: step.splits intro: kept_trans)
qed

lemma ram_build_chunks_reader:
  "ram_build_chunks ctx g = (ret, ctx', g') \<Longrightarrow>
   reader ctx' = reader ctx \<and> private_data ctx' = private_data ctx"
  unfolding ram_build_chunks_def Let_def
  by (auto simp: kept_def split: prod.splits loop_exit.splits if_splits dest!: build_loop_kept)

lemma ram_open_reader:
  "ram_open ctx argv mm g = Some (ret, ctx', g') \<Longrightarrow> reader ctx' = reader ctx"
  unfolding ram_open_def Let_def
  by (auto split: option.splits if_splits prod.splits dest!: ram_build_chunks_reader)

section \<open>The in-use flag\<close>

lemma ram_build_chunks_in_used:
  "ram_build_chunks ctx g = (ret, ctx', g') \<Longrightarrow>
   is_in_used (static_ram_priv g') = is_in_used (static_ram_priv g)"
  unfolding ram_build_chunks_def Let_def FreePool_def
  by (auto simp: kept_def split: prod.splits loop_exit.splits if_splits dest!: build_loop_kept)

lemma parse_window_in_used:
  "parse_window argv priv = (ok, priv') \<Longrightarrow> is_in_used priv' = is_in_used priv"
  by (auto simp: parse_window_def Let_def split: if_splits)

lemma ram_open_flag:
  assumes "\<not> is_in_used (static_ram_priv g)"
    and "ram_open ctx argv mm g = Some (ret, ctx', g')"
  shows "is_in_used (static_ram_priv g') = (ret = EFI_SUCCESS)"
  using assms unfolding ram_open_def Let_def FreePool_def
  by (auto simp: EFI_ERROR_def zero_ram_priv_def split: option.splits if_splits prod.splits
      dest!: ram_build_chunks_in_used parse_window_in_used)

lemma ram_open_busy:
  assumes "is_in_used (static_ram_priv g)"
  shows "ram_open ctx argv mm g =
           Some (if length argv \<le> 2 then EFI_UNSUPPORTED else EFI_INVALID_PARAMETER, ctx, g)"
  using assms by (simp add: ram_open_def)

lemma ram_open_private:
  "ram_open ctx argv mm g = Some (EFI_SUCCESS, ctx', g') \<Longrightarrow> private_data ctx' = PRIV_RAM"
  unfolding ram_open_def Let_def
  by (auto simp: EFI_ERROR_def split: option.splits if_splits prod.splits
      dest!: ram_build_chunks_reader)

lemma ram_build_chunks_status:
  assumes "ram_build_chunks ctx (g\<lparr>static_ram_priv := p\<rparr>) = (r, c, g')"
    and "ram_build_chunks ctx (h\<lparr>static_ram_priv := p\<rparr>) = (r', c', h')"
  shows "r = r'"
proof -
  have "fst (ram_build_chunks ctx (g\<lparr>static_ram_priv := p\<rparr>))
          = fst (ram_build_chunks ctx (h\<lparr>static_ram_priv := p\<rparr>))"
    by (simp add: ram_build_chunks_def Let_def split: prod.splits loop_exit.splits)
  with assms show ?thesis by simp
qed

lemma ram_open_status:
  assumes "\<not> is_in_used (static_ram_priv g)" and "\<not> is_in_used (static_ram_priv h)"
  shows "status_of (ram_open ctx argv mm g) = status_of (ram_open ctx argv mm h)"
  using assms unfolding ram_open_def Let_def
  by (auto simp: status_of_def EFI_ERROR_def split: prod.splits option.splits
      dest: ram_build_chunks_status)

lemma ram_read_in_used:
  "ram_read ctx priv bl = (ret, bl', priv') \<Longrightarrow> is_in_used priv' = is_in_used priv"
  by (auto simp: ram_read_def Let_def split: if_splits)

lemma reader_read_flag:
  assumes "reader_read rd ctx g bl = Some (ret, bl', ctx', g')"
  shows "is_in_used (static_ram_priv g') = is_in_used (static_ram_priv g) \<and>
         reader ctx' = reader ctx \<and>
         (private_data ctx = PRIV_RAM \<longrightarrow> private_data ctx' = PRIV_RAM)"
  using assms
  by (auto simp: reader_read_def Let_def split: if_splits option.splits reader.splits
      private_ptr.splits prod.splits dest: ram_read_in_used)

lemma part_open_static:
  "part_open ctx argv a s gpt g = (ret, ctx', g') \<Longrightarrow> static_ram_priv g' = static_ram_priv g"
  by (auto simp: part_open_def Let_def FreePool_def split: if_splits)

lemma efivar_open_static:
  "efivar_open ctx argc sg ss ef gv g = (ret, ctx', g') \<Longrightarrow>
   static_ram_priv g' = static_ram_priv g"
  by (auto simp: efivar_open_def FreePool_def split: if_splits)

lemma reader_close_other:
  "reader ctx \<noteq> Some Ram \<Longrightarrow> reader_close ctx g = Some g' \<Longrightarrow>
   static_ram_priv g' = static_ram_priv g"
  by (auto simp: reader_close_def free_private_def FreePool_def
      split: option.splits reader.splits)

lemma ram_close_stream:
  assumes "reader c = Some Ram" and "private_data c = PRIV_RAM"
  shows "\<exists>g'. ram_close c g = Some g' \<and> reader_close c g = Some g' \<and>
           \<not> is_in_used (static_ram_priv g')"
  using assms by (simp add: ram_close_def reader_close_def FreePool_def)

lemma one_region_opens: "status_of stream_A = Some EFI_SUCCESS"
  by code_simp

lemma ram_streams_inv:
  "ram_streams g S \<Longrightarrow>
   length S \<le> 1 \<and> (is_in_used (static_ram_priv g) \<longleftrightarrow> S \<noteq> []) \<and>
   (\<forall>c\<in>set S. reader c = Some Ram \<and> private_data c = PRIV_RAM)"
proof (induction rule: ram_streams.induct)
  case (streams_start g)
  then show ?case by simp
next
  case (streams_open g S ctx argv GetMemoryMap ret ctx' g')
  show ?case
  proof (cases "S = []")
    case True
    with streams_open.IH have "\<not> is_in_used (static_ram_priv g)" by simp
    from ram_open_flag [OF this streams_open.hyps(2)] ram_open_private [of _ argv GetMemoryMap g ctx' g']
      ram_open_reader [OF streams_open.hyps(2)] streams_open.hyps(2) True
    show ?thesis by auto
  next
    case False
    with streams_open.IH have "is_in_used (static_ram_priv g)" by simp
    from ram_open_busy [OF this] streams_open.hyps(2) streams_open.IH
    show ?thesis by (auto split: if_splits)
  qed
next
  case (streams_open_part g S ctx argv AllocatePool_ok stra_to_str_ok gpt ret ctx' g')
  from part_open_static [OF this(2)] this(3) show ?case by simp
next
  case (streams_open_efivar g S ctx argc stra_to_guid stra_to_str_ok efivar_find
      get_efi_variable ret ctx' g')
  from efivar_open_static [OF this(2)] this(3) show ?case by simp
next
  case (streams_read g S1 ctx S2 ReadDisk bl ret bl' ctx' g')
  from reader_read_flag [OF this(2)] this(3) show ?case by auto
next
  case (streams_read_other g S ctx ReadDisk bl ret bl' ctx' g')
  from reader_read_flag [OF this(3)] this(4) show ?case by auto
next
  case (streams_close g S1 ctx S2 g')
  then have s: "S1 = []" "S2 = []" "reader ctx = Some Ram" "private_data ctx = PRIV_RAM"
    by auto
  from ram_close_stream [OF s(3,4), of g] streams_close.hyps(2) s show ?case by auto
next
  case (streams_close_other g S ctx g')
  from reader_close_other [OF this(2,3)] this(4) show ?case by simp
qed

text \<open>
  C10, as stated, fails in two ways.  A second \<open>ram_open\<close> while the first stream is
  open does not always fail with \<open>EFI_UNSUPPORTED\<close>: with three arguments it fails
  with \<open>EFI_INVALID_PARAMETER\<close>, since the argument count is tested before the flag.
  And two RAM streams can be open at once: \<open>ram_close\<close> clears the flag through the
  pointer of any context it is given, so when the stream \<open>A\<close> has been closed and the
  stream \<open>B\<close> opened, a second close of the context of \<open>A\<close> clears the flag of \<open>B\<close>,
  and the next \<open>ram_open\<close> succeeds while \<open>B\<close> is open.
\<close>

theorem second_open_counterexample:
  "status_of stream_A = Some EFI_SUCCESS \<and>
   status_of (ram_open (fresh_ctx Ram) [(0, True), (0, True), (0, True)] one_region_map
      (globals_of stream_A)) = Some EFI_INVALID_PARAMETER \<and>
   status_of stream_B = Some EFI_SUCCESS \<and>
   is_in_used (priv_of stream_B) \<and>
   map_option (\<lambda>g. is_in_used (static_ram_priv g)) A_closed_again = Some False \<and>
   status_of (ram_open (fresh_ctx Ram) [] one_region_map (the A_closed_again))
     = Some EFI_SUCCESS"
  by code_simp

text \<open>
  C10, as amended: the RAM reader is a singleton guarded by the in-use flag, as long as
  \<open>reader_close\<close> is called on a RAM context only while its stream is open.  After
  every sequence of such calls at most one RAM stream is open, and the flag is set
  exactly when one is.  While a stream is open every \<open>ram_open\<close> fails and changes
  nothing, with \<open>EFI_UNSUPPORTED\<close> when it has at most two arguments and with
  \<open>EFI_INVALID_PARAMETER\<close> when it has more.  A \<open>ram_open\<close> made while no stream is
  open leaves the flag set exactly when it succeeds, so every failing path releases it,
  and it returns the status it would return at program start: a failed or closed stream
  does not block it.  And \<open>ram_close\<close> of the open stream clears the flag and leaves
  no stream open.
\<close>

theorem ram_singleton:
  assumes "ram_streams g S"
  shows "length S \<le> 1 \<and> (is_in_used (static_ram_priv g) \<longleftrightarrow> S \<noteq> []) \<and>
    (S \<noteq> [] \<longrightarrow>
       ram_open ctx argv mm g =
         Some (if length argv \<le> 2 then EFI_UNSUPPORTED else EFI_INVALID_PARAMETER, ctx, g)) \<and>
    (S = [] \<and> ram_open ctx argv mm g = Some (ret, ctx', g') \<longrightarrow>
       (is_in_used (static_ram_priv g') \<longleftrightarrow> ret = EFI_SUCCESS)) \<and>
    (S = [] \<longrightarrow>
       status_of (ram_open ctx argv mm g) = status_of (ram_open ctx argv mm boot_globals)) \<and>
    (\<forall>c\<in>set S. \<exists>g'. ram_close c g = Some g' \<and> reader_close c g = Some g' \<and>
       \<not> is_in_used (static_ram_priv g') \<and> ram_streams g' [])"
proof -
  note inv = ram_streams_inv [OF assms]
  have free: "\<not> is_in_used (static_ram_priv boot_globals)"
    by (simp add: boot_globals_def zero_ram_priv_def)
  have "\<exists>g'. ram_close c g = Some g' \<and> reader_close c g = Some g' \<and>
       \<not> is_in_used (static_ram_priv g') \<and> ram_streams g' []" if "c \<in> set S" for c
  proof -
    from inv that have "reader c = Some Ram" "private_data c = PRIV_RAM" by auto
    from ram_close_stream [OF this, of g] show ?thesis
      by (auto intro: streams_start)
  qed
  with inv ram_open_busy [of g ctx argv mm] ram_open_flag [of g ctx argv mm ret ctx' g']
    ram_open_status [OF _ free, of g ctx argv mm]
  show ?thesis by auto
qed

theorem ram_singleton_witness:
  "ram_streams boot_globals [] \<and>
   ram_streams (globals_of stream_A) [ctx_of stream_A] \<and>
   is_in_used (static_ram_priv (globals_of stream_A)) \<and>
   ram_open (fresh_ctx Ram) [] one_region_map (globals_of stream_A)
     = Some (EFI_UNSUPPORTED, fresh_ctx Ram, globals_of stream_A) \<and>
   (\<exists>g'. reader_close (ctx_of stream_A) (globals_of stream_A) = Some g' \<and>
      \<not> is_in_used (static_ram_priv g'))"
proof -
  have s0: "ram_streams boot_globals []"
    by (rule streams_start) (simp add: boot_globals_def zero_ram_priv_def)
  have f: "(fresh_ctx Ram)\<lparr>reader := Some Ram\<rparr> = fresh_ctx Ram"
    by (simp add: fresh_ctx_def)
  have A: "ram_open (fresh_ctx Ram) [] one_region_map boot_globals
             = Some (EFI_SUCCESS, ctx_of stream_A, globals_of stream_A)"
    using one_region_opens
    by (cases stream_A) (auto simp: stream_A_def status_of_def ctx_of_def globals_of_def)
  from streams_open [OF s0, of "fresh_ctx Ram" "[]" one_region_map EFI_SUCCESS
      "ctx_of stream_A" "globals_of stream_A"] A f
  have s1: "ram_streams (globals_of stream_A) [ctx_of stream_A]"
    by simp
  from ram_singleton [OF s0, of "fresh_ctx Ram" "[]" one_region_map EFI_SUCCESS
      "ctx_of stream_A" "globals_of stream_A"] A
  have u: "is_in_used (static_ram_priv (globals_of stream_A))"
    by simp
  from ram_singleton [OF s1, of "fresh_ctx Ram" "[]" one_region_map]
  have "ram_open (fresh_ctx Ram) [] one_region_map (globals_of stream_A)
          = Some (EFI_UNSUPPORTED, fresh_ctx Ram, globals_of stream_A)"
    and "\<exists>g'. reader_close (ctx_of stream_A) (globals_of stream_A) = Some g' \<and>
          \<not> is_in_used (static_ram_priv g')"
    by auto
  with s0 s1 u show ?thesis by blast
qed

section \<open>The window of the RAM reader\<close>

lemma parse_window_misaligned:
  assumes "1 \<le> length argv" and "length argv \<le> 2"
    and "fst (argv ! 0) mod EFI_PAGE_SIZE \<noteq> 0 \<or>
         (length argv = 2 \<and> (fst (argv ! 0) + fst (argv ! 1)) mod EFI_PAGE_SIZE \<noteq> 0)"
  shows "\<not> fst (parse_window argv priv)"
  using assms by (auto simp: parse_window_def Let_def)

text \<open>
  C6, as stated, fails: a window with \<open>start = end\<close> is not rejected.  With the
  arguments \<open>1000\<close> and \<open>0\<close> on a map of one region of four pages at address 0 the
  window is \<open>start = end = 0x1000\<close> and \<open>ram_open\<close> succeeds.
\<close>

theorem empty_window_counterexample:
  "status_of (ram_open (fresh_ctx Ram) [(0x1000, True), (0, True)]
      (EFI_SUCCESS, [descriptor 7 0 4]) boot_globals) = Some EFI_SUCCESS \<and>
   start (priv_of (ram_open (fresh_ctx Ram) [(0x1000, True), (0, True)]
      (EFI_SUCCESS, [descriptor 7 0 4]) boot_globals)) = 0x1000 \<and>
   end_addr (priv_of (ram_open (fresh_ctx Ram) [(0x1000, True), (0, True)]
      (EFI_SUCCESS, [descriptor 7 0 4]) boot_globals)) = 0x1000"
  by code_simp

text \<open>
  C6, as amended: when the RAM reader is free and has one or two arguments, \<open>ram_open\<close>
  fails with \<open>EFI_INVALID_PARAMETER\<close>, and leaves the reader free, whenever the parsed
  window is misaligned: \<open>start\<close>, or with two arguments \<open>end = start + length\<close>, is not
  a multiple of the page size.  Nothing is said of a window with \<open>start = end\<close>.
\<close>

theorem ram_open_misaligned:
  assumes "\<not> is_in_used (static_ram_priv g)" and "1 \<le> length argv" and "length argv \<le> 2"
    and "fst (argv ! 0) mod EFI_PAGE_SIZE \<noteq> 0 \<or>
         (length argv = 2 \<and> (fst (argv ! 0) + fst (argv ! 1)) mod EFI_PAGE_SIZE \<noteq> 0)"
  shows "status_of (ram_open ctx argv GetMemoryMap g) = Some EFI_INVALID_PARAMETER \<and>
         \<not> is_in_used (priv_of (ram_open ctx argv GetMemoryMap g))"
  using assms(1,3) parse_window_misaligned [OF assms(2-4), of "zero_ram_priv\<lparr>is_in_used := True\<rparr>"]
  by (auto simp: ram_open_def Let_def status_of_def priv_of_def globals_of_def
      split: prod.splits)

theorem ram_open_misaligned_witness:
  "status_of (ram_open (fresh_ctx Ram) [(0x1800, True)] one_region_map boot_globals)
     = Some EFI_INVALID_PARAMETER \<and>
   \<not> is_in_used (priv_of (ram_open (fresh_ctx Ram) [(0x1800, True)] one_region_map
        boot_globals))"
  using ram_open_misaligned [of boot_globals "[(0x1800, True)]" "fresh_ctx Ram" one_region_map]
  by (simp add: boot_globals_def zero_ram_priv_def EFI_PAGE_SIZE_def)

section \<open>The pool\<close>

text \<open>
  C9: no operation of the RAM reader should free the chunk array, which is a member of
  the static structure.  The code does: \<open>ram_close\<close>, on every context whose pointer is
  the static structure, calls \<open>FreePool\<close> on \<open>priv->chunks\<close>, and so does the error
  path of \<open>ram_build_chunks\<close>, here on a map of two overlapping regions.
\<close>

theorem chunk_array_is_freed:
  "map_option pool_freed (ram_close (ctx\<lparr>private_data := PRIV_RAM\<rparr>) g)
     = Some (pool_freed g @ [PTR_ram_priv_chunks]) \<and>
   status_of (ram_open (fresh_ctx Ram) []
      (EFI_SUCCESS, [descriptor 7 0 2, descriptor 7 0x1000 2]) boot_globals)
     = Some EFI_INVALID_PARAMETER \<and>
   pool_freed (globals_of (ram_open (fresh_ctx Ram) []
      (EFI_SUCCESS, [descriptor 7 0 2, descriptor 7 0x1000 2]) boot_globals))
     = [PTR_ram_priv_chunks, PTR_NULL]"
proof (intro conjI)
  show "map_option pool_freed (ram_close (ctx\<lparr>private_data := PRIV_RAM\<rparr>) g)
          = Some (pool_freed g @ [PTR_ram_priv_chunks])"
    by (simp add: ram_close_def FreePool_def)
qed code_simp+

section \<open>The arguments of the partition reader\<close>

text \<open>
  C8: the offset and the length should be accepted when \<open>offset < length_total\<close>,
  \<open>length > 0\<close> and \<open>offset + length \<le> length_total\<close>.  The code rejects the case
  \<open>offset + length = length_total\<close>: on a partition of 8 blocks of 512 bytes, the offset
  0 with the length \<open>0x1000\<close> fails with \<open>EFI_INVALID_PARAMETER\<close>.
\<close>

theorem part_open_rejects_whole_partition:
  "fst (part_open (fresh_ctx Part) [(0, False), (0, True), (0x1000, True)] True True
      (EFI_SUCCESS, \<lparr>starting_lba = 0, ending_lba = 7, BlockSize = 512\<rparr>) boot_globals)
     = EFI_INVALID_PARAMETER"
  by code_simp

text \<open>
  What the code accepts, with a label, an offset and a length, once the partition is
  found: the three conditions with the last one strict.
\<close>

lemma part_open_accepts_iff:
  assumes "length argv = 3" and "AllocatePool_ok" and "stra_to_str_ok"
    and "fst gpt = EFI_SUCCESS"
  shows "fst (part_open ctx argv AllocatePool_ok stra_to_str_ok gpt g) = EFI_SUCCESS \<longleftrightarrow>
         (let length_total =
                (ending_lba (snd gpt) + 1 - starting_lba (snd gpt)) * ucast (BlockSize (snd gpt))
          in fst (argv ! 1) < length_total \<and> fst (argv ! 2) \<noteq> 0 \<and>
             unat (fst (argv ! 1)) + unat (fst (argv ! 2)) < unat length_total)"
  using assms
  apply (simp add: part_open_def Let_def EFI_ERROR_def)
  apply (auto simp: word_less_nat_alt word_le_nat_alt unat_sub not_less not_le)
  done

section \<open>The streaming state machine of the RAM reader\<close>

text \<open>
  What \<open>ram_read\<close> does in each of its three states.  When \<open>ctx.cur = 0\<close> it needs
  room for the sparse header (else \<open>EFI_INVALID_PARAMETER\<close>, nothing changed) and
  returns the header, of 28 bytes, with both cursors set to \<open>start\<close>.  Otherwise, when
  \<open>cur_addr = cur_end\<close>, it needs a chunk that has not been sent and room for a chunk
  header (else \<open>EFI_INVALID_PARAMETER\<close>, nothing changed); it returns the header of
  the next chunk, of 12 bytes, adds to \<open>cur_addr\<close> the product of the block count and
  the page size taken in 32 bits to get \<open>cur_end\<close>, which is
  \<open>cur_addr + block_count * P\<close> for a chunk of less than \<open>2 ^ 20\<close> blocks, and for a
  DONT_CARE chunk sets \<open>cur_addr = cur_end\<close>, while a RAW chunk leaves \<open>cur_addr\<close>.
  Otherwise it returns \<open>min(capacity, cur_end - cur_addr)\<close> bytes at the physical
  address \<open>cur_addr\<close> and advances \<open>cur_addr\<close> by that amount.  In every state the
  structure is left as it is apart from the two cursors and the chunk index.
\<close>

lemma ram_read_states:
  assumes "ram_read ctx priv (b, cap) = (ret, (b', n), priv')"
  shows
   "(cur ctx = 0 \<longrightarrow>
      (if cap < sizeof_sparse_header
       then ret = EFI_INVALID_PARAMETER \<and> (b', n) = (b, cap) \<and> priv' = priv
       else ret = EFI_SUCCESS \<and> b' = BUF_sheader \<and> n = sizeof_sparse_header \<and>
            cur_addr priv' = start priv \<and> cur_end priv' = start priv \<and>
            cur_chunk priv' = cur_chunk priv)) \<and>
    (cur ctx \<noteq> 0 \<and> cur_addr priv = cur_end priv \<longrightarrow>
      (if cur_chunk priv = chunk_nb priv \<or> cap < sizeof_chunk_header
       then ret = EFI_INVALID_PARAMETER \<and> (b', n) = (b, cap) \<and> priv' = priv
       else ret = EFI_SUCCESS \<and> b' = BUF_chunk (unat (cur_chunk priv)) \<and>
            n = sizeof_chunk_header \<and> cur_chunk priv' = cur_chunk priv + 1 \<and>
            cur_end priv' = cur_addr priv +
              ucast (chunk_sz (chunks priv (unat (cur_chunk priv))) * EFI_PAGE_SIZE) \<and>
            (unat (chunk_sz (chunks priv (unat (cur_chunk priv)))) < 2 ^ 20 \<longrightarrow>
               cur_end priv' = cur_addr priv +
                 ucast (chunk_sz (chunks priv (unat (cur_chunk priv)))) * EFI_PAGE_SIZE) \<and>
            (chunk_type (chunks priv (unat (cur_chunk priv))) = CHUNK_TYPE_DONT_CARE \<longrightarrow>
               cur_addr priv' = cur_end priv') \<and>
            (chunk_type (chunks priv (unat (cur_chunk priv))) = CHUNK_TYPE_RAW \<longrightarrow>
               cur_addr priv' = cur_addr priv))) \<and>
    (cur ctx \<noteq> 0 \<and> cur_addr priv \<noteq> cur_end priv \<longrightarrow>
       ret = EFI_SUCCESS \<and> n = min cap (cur_end priv - cur_addr priv) \<and>
       b' = BUF_phys (cur_addr priv) \<and> cur_addr priv' = cur_addr priv + n \<and>
       cur_end priv' = cur_end priv \<and> cur_chunk priv' = cur_chunk priv) \<and>
    priv'\<lparr>cur_addr := cur_addr priv, cur_end := cur_end priv, cur_chunk := cur_chunk priv\<rparr>
      = priv"
  using assms
  by (auto simp: ram_read_def Let_def EFI_PAGE_SIZE_def blocks_no_wrap CHUNK_TYPE_RAW_def
      CHUNK_TYPE_DONT_CARE_def split: if_splits)

text \<open>
  C3: at a chunk boundary \<open>ram_read\<close> should set
  \<open>cur_end = cur_addr + block_count * P\<close>.  Line 302 multiplies the 32-bit block count
  by the page size in 32 bits, so the product of a chunk of \<open>2 ^ 20\<close> blocks or more
  loses its high bits.  On a map of one conventional region of 4 GiB the plan is one RAW
  chunk of \<open>0x100000\<close> blocks; the first \<open>reader_read\<close> returns the sparse header
  and the second the chunk header, after which \<open>cur_end = cur_addr = 0\<close> where
  \<open>cur_addr + block_count * P\<close> is \<open>0x100000000\<close>.  No payload is sent: the third
  \<open>reader_read\<close> finds \<open>cur_addr = cur_end\<close> with every chunk sent and fails with
  \<open>EFI_INVALID_PARAMETER\<close>, at byte 40 of a stream of \<open>0x100000028\<close> bytes.
\<close>

theorem large_chunk_payload_is_skipped:
  "status_of (ram_open (fresh_ctx Ram) [] large_region_map boot_globals) = Some EFI_SUCCESS \<and>
   plan_shape (static_ram_priv (snd large_stream)) = [(CHUNK_TYPE_RAW, 0x100000)] \<and>
   read_result 0x1000 large_stream = Some (EFI_SUCCESS, BUF_sheader, 28) \<and>
   read_result 0x1000 (read_step 0x1000 large_stream) = Some (EFI_SUCCESS, BUF_chunk 0, 12) \<and>
   cur_addr (static_ram_priv (snd (read_step 0x1000 (read_step 0x1000 large_stream)))) = 0 \<and>
   cur_end (static_ram_priv (snd (read_step 0x1000 (read_step 0x1000 large_stream)))) = 0 \<and>
   cur_addr (static_ram_priv (snd (read_step 0x1000 large_stream)))
     + ucast (chunk_sz (chunks (static_ram_priv (snd large_stream)) 0)) * EFI_PAGE_SIZE
     = 0x100000000 \<and>
   cur (fst (read_step 0x1000 (read_step 0x1000 large_stream))) = 40 \<and>
   len (fst (read_step 0x1000 (read_step 0x1000 large_stream))) = 0x100000028 \<and>
   read_result 0x1000 (read_step 0x1000 (read_step 0x1000 large_stream))
     = Some (EFI_INVALID_PARAMETER, BUF_NONE, 0x1000)"
  by code_simp

section \<open>Byte counts of reader_read\<close>

lemma part_read_ok:
  assumes r: "part_read rd ctx p (b, l) = (ret, (b', n), p')"
    and inv: "need_more_data p \<or> buf_cur p < buf_len p"
    and l: "l \<noteq> 0" "l \<le> len ctx - cur ctx"
  shows "(need_more_data p' \<or> buf_cur p' < buf_len p') \<and>
         (ret = EFI_SUCCESS \<longrightarrow> n \<le> l \<and> n \<noteq> 0)"
proof (cases "need_more_data p")
  case True
  have d: "len ctx - cur ctx \<noteq> 0" using l by auto
  have "min PART_READER_BUF_SIZE (len ctx - cur ctx) \<noteq> 0"
    using d by (simp add: min_def PART_READER_BUF_SIZE_def)
  with True r l show ?thesis
    by (auto simp: part_read_def Let_def EFI_ERROR_def min_def split: if_splits)
next
  case False
  with inv have lt: "buf_cur p < buf_len p" by simp
  from word_sub_nonzero [OF lt] have nz: "buf_len p - buf_cur p \<noteq> 0" .
  have le: "buf_cur p + min l (buf_len p - buf_cur p) \<le> buf_len p"
    by (rule word_advance_le [OF lt]) simp
  from False r l nz le show ?thesis
    by (auto simp: part_read_def Let_def min_def split: if_splits)
qed

lemma ram_read_ok:
  assumes "ram_read ctx priv (b, l) = (EFI_SUCCESS, (b', n), priv')" and "l \<noteq> 0"
  shows "n \<le> l \<and> n \<noteq> 0"
  using assms
  by (auto simp: ram_read_def Let_def min_def sizeof_sparse_header_def sizeof_chunk_header_def
      split: if_splits)

lemma reader_read_ok:
  assumes "ctx_ok ctx" and "reader_read rd ctx g bl = Some (ret, bl', ctx', g')"
  shows "ctx_ok ctx'"
proof (cases "snd bl = 0 \<or> min (snd bl) (len ctx - cur ctx) = 0")
  case True
  with assms show ?thesis
    by (auto simp: reader_read_def Let_def split: if_splits)
next
  case False
  then have l: "min (snd bl) (len ctx - cur ctx) \<noteq> 0"
    "min (snd bl) (len ctx - cur ctx) \<le> len ctx - cur ctx" by simp_all
  from assms(1) obtain r where rd: "reader ctx = Some r" by (auto simp: ctx_ok_def)
  show ?thesis
  proof (cases r)
    case Part
    with assms(1) rd obtain p where p: "private_data ctx = PRIV_PART p"
      "need_more_data p \<or> buf_cur p < buf_len p" by (auto simp: ctx_ok_def)
    obtain st b2 n2 p' where pr:
      "part_read rd ctx p (fst bl, min (snd bl) (len ctx - cur ctx)) = (st, (b2, n2), p')"
      by (metis surj_pair)
    from part_read_ok [OF pr p(2) l] pr assms(2) False rd Part p(1) show ?thesis
      by (auto simp: reader_read_def Let_def ctx_ok_def split: if_splits)
  qed (use assms False rd in \<open>auto simp: reader_read_def Let_def ctx_ok_def read_from_private_def
        split: if_splits private_ptr.splits prod.splits\<close>)
qed

lemma opened_ctx_ok: "opened ctx g \<Longrightarrow> ctx_ok ctx"
proof (induction rule: opened.induct)
  case (opened_ram ctx argv GetMemoryMap g ctx' g')
  from ram_open_reader [OF this] show ?case by (simp add: ctx_ok_def)
next
  case (opened_acpi ctx argc get_acpi_table ctx' g)
  then show ?case by (auto simp: acpi_open_def ctx_ok_def split: if_splits)
next
  case (opened_part ctx argv AllocatePool_ok stra_to_str_ok gpt g ctx' g')
  then show ?case
    by (auto simp: part_open_def ctx_ok_def Let_def EFI_ERROR_def split: if_splits)
next
  case (opened_efivar ctx argc stra_to_guid stra_to_str_ok efivar_find get_efi_variable g ctx' g')
  then show ?case by (auto simp: efivar_open_def ctx_ok_def split: if_splits)
next
  case (opened_read ctx g ReadDisk bl ret bl' ctx' g')
  then show ?case using reader_read_ok by blast
qed


text \<open>
  What \<open>reader_read\<close> returns on an opened context, in the arithmetic of the code.
  A successful call returns a count \<open>n\<close> that is at most \<open>max_len\<close> and at most the
  difference \<open>ctx.len - ctx.cur\<close> of line 624, taken in \<open>UINTN\<close>; it advances
  \<open>ctx.cur\<close> by \<open>n\<close> and leaves \<open>ctx.len\<close>; and \<open>n = 0\<close> exactly when
  \<open>ctx.cur = ctx.len\<close>.  When \<open>ctx.cur \<le> ctx.len\<close> before the call, nothing wraps
  around and \<open>ctx.cur \<le> ctx.len\<close> after it.  With \<open>ctx.cur = ctx.len\<close> and a
  non-zero \<open>max_len\<close> the call returns 0 bytes with success and changes nothing; with
  \<open>max_len = 0\<close> every call fails with \<open>EFI_INVALID_PARAMETER\<close> (line 621).
\<close>

lemma reader_read_count:
  assumes "opened ctx g"
  shows "(reader_read ReadDisk ctx g (b, max_len) = Some (EFI_SUCCESS, (b', n), ctx', g') \<longrightarrow>
            n \<le> min max_len (len ctx - cur ctx) \<and> cur ctx' = cur ctx + n \<and>
            len ctx' = len ctx \<and> (n = 0 \<longleftrightarrow> cur ctx = len ctx) \<and>
            (cur ctx \<le> len ctx \<longrightarrow>
               cur ctx' \<le> len ctx' \<and> unat (cur ctx') = unat (cur ctx) + unat n)) \<and>
         (cur ctx = len ctx \<and> max_len \<noteq> 0 \<longrightarrow>
            reader_read ReadDisk ctx g (b, max_len) = Some (EFI_SUCCESS, (b, 0), ctx, g))"
proof (rule conjI; rule impI)
  assume "cur ctx = len ctx \<and> max_len \<noteq> 0"
  with opened_ctx_ok [OF assms]
  show "reader_read ReadDisk ctx g (b, max_len) = Some (EFI_SUCCESS, (b, 0), ctx, g)"
    by (auto simp: reader_read_def ctx_ok_def)
next
  assume rr: "reader_read ReadDisk ctx g (b, max_len) = Some (EFI_SUCCESS, (b', n), ctx', g')"
  let ?l = "min max_len (len ctx - cur ctx)"
  from opened_ctx_ok [OF assms] obtain r where rd: "reader ctx = Some r"
    by (auto simp: ctx_ok_def)
  from rr have m: "max_len \<noteq> 0" by (auto simp: reader_read_def split: if_splits)
  have main: "n \<le> ?l \<and> cur ctx' = cur ctx + n \<and> len ctx' = len ctx \<and>
      (n = 0 \<longleftrightarrow> cur ctx = len ctx)"
  proof (cases "?l = 0")
    case True
    with m have "cur ctx = len ctx" by (auto simp: min_def split: if_splits)
    with rr m rd True show ?thesis by (auto simp: reader_read_def Let_def)
  next
    case False
    then have ne: "cur ctx \<noteq> len ctx" by auto
    have l: "?l \<noteq> 0" "?l \<le> len ctx - cur ctx" using False by simp_all
    show ?thesis
    proof (cases r)
      case Ram
      with rr rd False m obtain priv' where
        "ram_read ctx (static_ram_priv g) (b, ?l) = (EFI_SUCCESS, (b', n), priv')"
        and c: "ctx' = ctx\<lparr>cur := cur ctx + n\<rparr>"
        by (auto simp: reader_read_def Let_def EFI_ERROR_def
            split: if_splits private_ptr.splits prod.splits)
      from ram_read_ok [OF this(1) l(1)] c ne show ?thesis by simp
    next
      case Part
      with opened_ctx_ok [OF assms] rd obtain p where p: "private_data ctx = PRIV_PART p"
        "need_more_data p \<or> buf_cur p < buf_len p" by (auto simp: ctx_ok_def)
      with rr rd False m Part obtain p' where
        pr: "part_read ReadDisk ctx p (b, ?l) = (EFI_SUCCESS, (b', n), p')"
        and c: "ctx' = ctx\<lparr>private_data := PRIV_PART p', cur := cur ctx + n\<rparr>"
        by (auto simp: reader_read_def Let_def EFI_ERROR_def split: if_splits prod.splits)
      from part_read_ok [OF pr p(2) l] c ne show ?thesis by simp
    next
      case Acpi
      with rr rd False m ne show ?thesis
        by (auto simp: reader_read_def Let_def EFI_ERROR_def read_from_private_def
            split: if_splits)
    next
      case Efivar
      with rr rd False m ne show ?thesis
        by (auto simp: reader_read_def Let_def EFI_ERROR_def read_from_private_def
            split: if_splits)
    qed
  qed
  have "cur ctx' \<le> len ctx' \<and> unat (cur ctx') = unat (cur ctx) + unat n"
    if le: "cur ctx \<le> len ctx"
  proof -
    from main have "n \<le> len ctx - cur ctx" by simp
    from word_advance_exact [OF le this] main show ?thesis by simp
  qed
  with main
  show "n \<le> ?l \<and> cur ctx' = cur ctx + n \<and> len ctx' = len ctx \<and>
        (n = 0 \<longleftrightarrow> cur ctx = len ctx) \<and>
        (cur ctx \<le> len ctx \<longrightarrow>
           cur ctx' \<le> len ctx' \<and> unat (cur ctx') = unat (cur ctx) + unat n)"
    by blast
qed

lemma reader_read_zero_len:
  "reader_read ReadDisk ctx g (b, 0) = Some (EFI_INVALID_PARAMETER, (b, 0), ctx, g)"
  by (simp add: reader_read_def)

text \<open>
  C4: on every opened context a successful \<open>reader_read\<close> should return a count
  \<open>n \<le> min(max_len, ctx.len - ctx.cur)\<close>.  With an offset and a length \<open>part_open\<close>
  stores the offset in \<open>ctx.cur\<close> and the length, not the end \<open>offset + length\<close>, in
  \<open>ctx.len\<close>, while \<open>reader_read\<close> takes \<open>ctx.len\<close> for the end of the stream.
  On a partition of 8 blocks of 512 bytes the offset \<open>0x800\<close> with the length
  \<open>0x400\<close> is accepted and leaves \<open>ctx.cur = 0x800\<close> above \<open>ctx.len = 0x400\<close>:
  the difference of line 624 wraps around, and a \<open>reader_read\<close> with 256 bytes
  offered returns 256 bytes, more than \<open>ctx.len - ctx.cur\<close>, which is negative, and
  moves \<open>ctx.cur\<close> to \<open>0x900\<close>.
\<close>

theorem read_past_partition_length:
  "fst part_stream = EFI_SUCCESS \<and>
   opened (fst (snd part_stream)) (snd (snd part_stream)) \<and>
   cur (fst (snd part_stream)) = 0x800 \<and> len (fst (snd part_stream)) = 0x400 \<and>
   read_result 0x100 (snd part_stream) = Some (EFI_SUCCESS, BUF_part 0, 0x100) \<and>
   \<not> uint (0x100 :: UINTN)
       \<le> min (uint (0x100 :: UINTN))
           (uint (len (fst (snd part_stream))) - uint (cur (fst (snd part_stream)))) \<and>
   cur (fst (read_step 0x100 (snd part_stream))) = 0x900"
proof -
  have f: "(fresh_ctx Part)\<lparr>reader := Some Part\<rparr> = fresh_ctx Part"
    by (simp add: fresh_ctx_def)
  have s: "fst part_stream = EFI_SUCCESS"
    by code_simp
  then have "part_stream = (EFI_SUCCESS, fst (snd part_stream), snd (snd part_stream))"
    by (simp add: prod_eq_iff)
  then have "opened (fst (snd part_stream)) (snd (snd part_stream))"
    unfolding part_stream_def
    using opened_part [of "fresh_ctx Part" "[(0, False), (0x800, True), (0x400, True)]" True True
        "(EFI_SUCCESS, \<lparr>starting_lba = 0, ending_lba = 7, BlockSize = 512\<rparr>)" boot_globals]
    by (simp only: f)
  moreover have "cur (fst (snd part_stream)) = 0x800" by code_simp
  moreover have "len (fst (snd part_stream)) = 0x400" by code_simp
  moreover have "read_result 0x100 (snd part_stream) = Some (EFI_SUCCESS, BUF_part 0, 0x100)"
    by code_simp
  moreover have "cur (fst (read_step 0x100 (snd part_stream))) = 0x900" by code_simp
  ultimately show ?thesis using s by simp
qed

section \<open>Overlapping descriptors\<close>

lemma final_end_last: "pre \<noteq> [] \<Longrightarrow> final_end pe pre = entry_end (last pre)"
  by (induction pre arbitrary: pe) auto

lemma plan_error_mono: "plan_error p n r \<Longrightarrow> grown c0 p0 c p m \<Longrightarrow> plan_error p0 (m + n) r"
  by (auto simp: plan_error_def grown_def)

lemma grown_trans: "grown c p c' p' m \<Longrightarrow> grown c' p' c'' p'' n \<Longrightarrow> grown c p c'' p'' (m + n)"
  by (auto simp: grown_def intro: kept_trans)

lemma ram_add_chunk_grown:
  assumes "ram_add_chunk ctx priv t sz = (ret, ctx', priv')"
  shows "grown ctx priv ctx' priv' 1 \<and> plan_error priv 1 ret"
proof -
  have "unat (chunk_nb priv + 1) \<le> unat (chunk_nb priv) + 1"
    by (simp add: unat_word_ariths)
  with assms ram_add_chunk_kept [OF assms] show ?thesis
    by (auto simp: ram_add_chunk_def plan_error_def grown_def Let_def MAX_MEMORY_REGION_NB_def
        split: if_splits)
qed


lemma plan_error_le: "plan_error p n r \<Longrightarrow> n \<le> m \<Longrightarrow> plan_error p m r"
  by (auto simp: plan_error_def)

lemma grown_le: "grown c p c' p' n \<Longrightarrow> n \<le> m \<Longrightarrow> grown c p c' p' m"
  by (auto simp: grown_def)

lemma entry_chunk_cases:
  assumes "end_addr priv = 0 \<or> entry_end e < end_addr priv"
  shows "(\<exists>c p. entry_chunk ctx priv e = Next c p \<and> grown ctx priv c p 1) \<or>
         (\<exists>r c p. entry_chunk ctx priv e = Err r c p \<and> plan_error priv 1 r)"
proof -
  obtain ret c p where a: "ram_add_chunk ctx priv
      (if Type e = EfiConventionalMemory then CHUNK_TYPE_RAW else CHUNK_TYPE_DONT_CARE)
      (entry_length priv e) = (ret, c, p)"
    by (metis prod_cases3)
  from ram_add_chunk_grown [OF a] a assms show ?thesis
    by (auto simp: entry_chunk_def Let_def kept_def grown_def entry_end_def not_le)
qed

lemma build_step_cases:
  assumes e: "end_addr priv = 0 \<or> entry_end e < end_addr priv"
    and s: "end_addr priv = 0 \<or> PhysicalStart e \<le> end_addr priv"
  shows "(\<exists>c p. build_step ctx priv pe e = Next c p \<and> grown ctx priv c p 2) \<or>
         (\<exists>r c p. build_step ctx priv pe e = Err r c p \<and> plan_error priv 2 r)"
proof (cases "start priv \<ge> entry_end e")
  case True
  then show ?thesis by (simp add: build_step_def entry_end_def grown_def)
next
  case skip: False
  show ?thesis
  proof (cases "pe = PhysicalStart e")
    case True
    from entry_chunk_cases [OF e, of ctx]
    have "(\<exists>c p. entry_chunk ctx priv e = Next c p \<and> grown ctx priv c p 2) \<or>
          (\<exists>r c p. entry_chunk ctx priv e = Err r c p \<and> plan_error priv 2 r)"
      by (auto simp: grown_def plan_error_def)
    with True skip show ?thesis
      by (simp add: build_step_def entry_end_def)
  next
    case hole: False
    show ?thesis
    proof (cases "pe > PhysicalStart e")
      case True
      with skip hole show ?thesis
        by (simp add: build_step_def entry_end_def plan_error_def)
    next
      case False
      obtain ret c p where a: "ram_add_chunk ctx priv CHUNK_TYPE_DONT_CARE
          (hole_length priv pe e) = (ret, c, p)"
        by (metis prod_cases3)
      from ram_add_chunk_grown [OF a]
      have g: "grown ctx priv c p 1" and pe: "plan_error priv 1 ret" by simp_all
      from g e have e': "end_addr p = 0 \<or> entry_end e < end_addr p"
        by (simp add: grown_def kept_def)
      from g s have nb: "\<not> (end_addr p \<noteq> 0 \<and> end_addr p < PhysicalStart e)"
        by (auto simp: grown_def kept_def)
      show ?thesis
      proof (cases "EFI_ERROR ret")
        case True
        with skip hole False a plan_error_le [OF pe, of 2] show ?thesis
          by (simp add: build_step_def entry_end_def)
      next
        case ok: False
        from entry_chunk_cases [OF e', of c]
        have "(\<exists>c' p'. entry_chunk c p e = Next c' p' \<and> grown ctx priv c' p' 2) \<or>
              (\<exists>r c' p'. entry_chunk c p e = Err r c' p' \<and> plan_error priv 2 r)"
          using grown_trans [OF g] plan_error_mono [OF _ g, of 1]
          by (auto simp: numeral_2_eq_2)
        with skip hole False a ok nb show ?thesis
          by (simp add: build_step_def entry_end_def)
      qed
    qed
  qed
qed

lemma build_loop_overlap:
  assumes "PhysicalStart b < final_end pe pre"
    and "start priv < entry_end b"
    and "end_addr priv = 0 \<or>
         (\<forall>e\<in>set pre. PhysicalStart e \<le> end_addr priv \<and> entry_end e < end_addr priv)"
  shows "\<exists>r pe' c p. build_loop (pre @ b # post) pe ctx priv = (Failed r, pe', c, p) \<and>
           plan_error priv (2 * length pre) r"
  using assms
proof (induction pre arbitrary: pe ctx priv)
  case Nil
  then show ?case
    by (auto simp: build_step_def entry_end_def plan_error_def not_le)
next
  case (Cons e pre)
  from Cons.prems(3)
  have e: "end_addr priv = 0 \<or> entry_end e < end_addr priv"
    and s: "end_addr priv = 0 \<or> PhysicalStart e \<le> end_addr priv"
    by auto
  from build_step_cases [OF e s, of ctx pe]
  show ?case
  proof (elim disjE exE conjE)
    fix c p
    assume n: "build_step ctx priv pe e = Next c p" and g: "grown ctx priv c p 2"
    from g Cons.prems have "start p < entry_end b"
      "end_addr p = 0 \<or>
       (\<forall>e\<in>set pre. PhysicalStart e \<le> end_addr p \<and> entry_end e < end_addr p)"
      by (auto simp: grown_def kept_def)
    from Cons.IH [OF _ this, of "entry_end e" c] Cons.prems(1)
    obtain r pe' c' p' where
      "build_loop (pre @ b # post) (entry_end e) c p = (Failed r, pe', c', p')"
      "plan_error p (2 * length pre) r"
      by auto
    with n plan_error_mono [OF this(2) g] show ?thesis
      by (simp add: entry_end_def)
  next
    fix r c p
    assume "build_step ctx priv pe e = Err r c p" and "plan_error priv 2 r"
    with plan_error_le [of priv 2 r "2 * length (e # pre)"] show ?thesis by simp
  qed
qed

lemma parse_window_chunk_nb:
  "parse_window argv priv = (ok, w) \<Longrightarrow>
   chunk_nb w = chunk_nb priv \<and> is_in_used w = is_in_used priv"
  by (auto simp: parse_window_def Let_def split: if_splits)

text \<open>
  C7, as stated, fails: a map with two overlapping descriptors does not always make
  \<open>ram_open\<close> fail.  The walk tests a descriptor against the one before it only
  between \<open>start\<close> and \<open>end\<close>.  Descriptors that end at or below \<open>start\<close> are
  skipped before the overlap test: with regions of 2 pages at 0 and at \<open>0x1000\<close>,
  which overlap, and a region of 4 pages at \<open>0x3000\<close>, the argument \<open>3000\<close> gives a
  plan.  And the walk stops at the first descriptor that reaches \<open>end\<close>: with a region
  of 3 pages at 0 and one of 2 pages at \<open>0x1000\<close>, which overlap, the arguments \<open>0\<close>
  and \<open>3000\<close> give a plan.
\<close>

theorem overlap_outside_walk_counterexample:
  "sort_memory_map [descriptor 7 0 2, descriptor 7 0x1000 2, descriptor 7 0x3000 4] 3
     = Some [descriptor 7 0 2, descriptor 7 0x1000 2, descriptor 7 0x3000 4] \<and>
   PhysicalStart (descriptor 7 0x1000 2) < entry_end (descriptor 7 0 2) \<and>
   status_of (ram_open (fresh_ctx Ram) [(0x3000, True)]
      (EFI_SUCCESS, [descriptor 7 0 2, descriptor 7 0x1000 2, descriptor 7 0x3000 4])
      boot_globals) = Some EFI_SUCCESS \<and>
   sort_memory_map [descriptor 7 0 3, descriptor 7 0x1000 2] 2
     = Some [descriptor 7 0 3, descriptor 7 0x1000 2] \<and>
   PhysicalStart (descriptor 7 0x1000 2) < entry_end (descriptor 7 0 3) \<and>
   status_of (ram_open (fresh_ctx Ram) [(0, True), (0x3000, True)]
      (EFI_SUCCESS, [descriptor 7 0 3, descriptor 7 0x1000 2]) boot_globals)
     = Some EFI_SUCCESS"
  by code_simp

text \<open>
  C7, as amended: when the RAM reader is free and its window is accepted, \<open>ram_open\<close>
  fails instead of producing a chunk plan whenever, in the sorted map, a descriptor \<open>b\<close>
  starts before the previous one ends and the walk reaches \<open>b\<close>: \<open>b\<close> ends above
  \<open>start\<close>, and \<open>end\<close> is 0 or every descriptor before \<open>b\<close> starts at or below
  \<open>end\<close> and ends below it.  The status is \<open>EFI_INVALID_PARAMETER\<close>, or
  \<open>EFI_OUT_OF_RESOURCES\<close> when more than 128 descriptors come before \<open>b\<close>, and the
  reader is left free.
\<close>

theorem overlap_in_window_rejected:
  assumes free: "\<not> is_in_used (static_ram_priv g)" and argc: "length argv \<le> 2"
    and win: "parse_window argv (zero_ram_priv\<lparr>is_in_used := True\<rparr>) = (True, w)"
    and fw: "fst GetMemoryMap = EFI_SUCCESS"
    and sorted: "sort_memory_map (snd GetMemoryMap) (length (snd GetMemoryMap))
                   = Some (pre @ b # post)"
    and overlap: "pre \<noteq> []" "PhysicalStart b < entry_end (last pre)"
    and reached: "start w < entry_end b"
      "end_addr w = 0 \<or>
       (\<forall>e\<in>set pre. PhysicalStart e \<le> end_addr w \<and> entry_end e < end_addr w)"
  shows "(status_of (ram_open ctx argv GetMemoryMap g) = Some EFI_INVALID_PARAMETER \<or>
          status_of (ram_open ctx argv GetMemoryMap g) = Some EFI_OUT_OF_RESOURCES \<and>
            128 < length pre) \<and>
         \<not> is_in_used (priv_of (ram_open ctx argv GetMemoryMap g))"
proof -
  let ?p = "w\<lparr>sheader := init_sheader (sheader w), memmap := pre @ b # post\<rparr>"
  let ?c = "ctx\<lparr>private_data := PRIV_RAM, cur := 0, len := 0\<rparr>"
  from parse_window_chunk_nb [OF win] have z: "chunk_nb ?p = 0"
    by (simp add: zero_ram_priv_def)
  from overlap have o: "PhysicalStart b < final_end 0 pre"
    by (simp add: final_end_last)
  from build_loop_overlap [OF o, of ?p post ?c] reached
  obtain r pe' c p where
    l: "build_loop (pre @ b # post) 0 ?c ?p = (Failed r, pe', c, p)"
    and pe: "plan_error ?p (2 * length pre) r"
    by auto
  from pe z have r: "r = EFI_SUCCESS \<or> r = EFI_INVALID_PARAMETER \<or>
      (r = EFI_OUT_OF_RESOURCES \<and> 128 < length pre)"
    by (auto simp: plan_error_def)
  from free argc win fw sorted l r show ?thesis
    by (auto simp: ram_open_def ram_build_chunks_def Let_def EFI_ERROR_def FreePool_def
        status_of_def priv_of_def globals_of_def)
qed

theorem overlap_in_window_rejected_witness:
  "status_of (ram_open (fresh_ctx Ram) [(0x3000, True)]
      (EFI_SUCCESS, [descriptor 7 0 2, descriptor 7 0x1000 2, descriptor 7 0x3000 2,
                     descriptor 7 0x4000 2]) boot_globals)
     = Some EFI_INVALID_PARAMETER \<and>
   \<not> is_in_used (priv_of (ram_open (fresh_ctx Ram) [(0x3000, True)]
      (EFI_SUCCESS, [descriptor 7 0 2, descriptor 7 0x1000 2, descriptor 7 0x3000 2,
                     descriptor 7 0x4000 2]) boot_globals)) \<and>
   status_of (ram_open (fresh_ctx Ram) [(0x3000, True), (0x3000, True)]
      (EFI_SUCCESS, [descriptor 7 0 2, descriptor 7 0x1000 2, descriptor 7 0x3000 2,
                     descriptor 7 0x4000 2]) boot_globals)
     = Some EFI_INVALID_PARAMETER"
proof -
  let ?pre = "[descriptor 7 0 2, descriptor 7 0x1000 2, descriptor 7 0x3000 2]"
  let ?mm = "(EFI_SUCCESS, ?pre @ [descriptor 7 0x4000 2])"
  let ?z = "zero_ram_priv\<lparr>is_in_used := True\<rparr>"
  let ?w = "?z\<lparr>start := 0x3000, end_addr := 0\<rparr>"
  let ?v = "?z\<lparr>start := 0x3000, end_addr := 0x6000\<rparr>"
  have free: "\<not> is_in_used (static_ram_priv boot_globals)"
    by (simp add: boot_globals_def zero_ram_priv_def)
  have sorted: "sort_memory_map (snd ?mm) (length (snd ?mm))
                  = Some (?pre @ descriptor 7 0x4000 2 # [])"
    by code_simp
  have overlap: "PhysicalStart (descriptor 7 0x4000 2) < entry_end (last ?pre)"
    by (simp add: descriptor_def entry_end_def EFI_PAGE_SIZE_def)
  have "(status_of (ram_open (fresh_ctx Ram) [(0x3000, True)] ?mm boot_globals)
           = Some EFI_INVALID_PARAMETER \<or>
         status_of (ram_open (fresh_ctx Ram) [(0x3000, True)] ?mm boot_globals)
           = Some EFI_OUT_OF_RESOURCES \<and> 128 < length ?pre) \<and>
        \<not> is_in_used (priv_of (ram_open (fresh_ctx Ram) [(0x3000, True)] ?mm boot_globals))"
  proof (rule overlap_in_window_rejected [where w = ?w and post = "[]"])
    show "length [(0x3000 :: UINT64, True)] \<le> 2" by simp
    show "parse_window [(0x3000, True)] ?z = (True, ?w)"
      by (simp add: parse_window_def zero_ram_priv_def EFI_PAGE_SIZE_def)
    show "fst ?mm = EFI_SUCCESS" by simp
    show "?pre \<noteq> []" by simp
    show "start ?w < entry_end (descriptor 7 0x4000 2)"
      by (simp add: descriptor_def entry_end_def EFI_PAGE_SIZE_def zero_ram_priv_def)
    show "end_addr ?w = 0 \<or>
       (\<forall>e\<in>set ?pre. PhysicalStart e \<le> end_addr ?w \<and> entry_end e < end_addr ?w)"
      by (simp add: zero_ram_priv_def)
  qed (rule free sorted overlap)+
  moreover
  have "(status_of (ram_open (fresh_ctx Ram) [(0x3000, True), (0x3000, True)] ?mm boot_globals)
           = Some EFI_INVALID_PARAMETER \<or>
         status_of (ram_open (fresh_ctx Ram) [(0x3000, True), (0x3000, True)] ?mm boot_globals)
           = Some EFI_OUT_OF_RESOURCES \<and> 128 < length ?pre) \<and>
        \<not> is_in_used (priv_of (ram_open (fresh_ctx Ram) [(0x3000, True), (0x3000, True)] ?mm
             boot_globals))"
  proof (rule overlap_in_window_rejected [where w = ?v and post = "[]"])
    show "length [(0x3000 :: UINT64, True), (0x3000, True)] \<le> 2" by simp
    show "parse_window [(0x3000, True), (0x3000, True)] ?z = (True, ?v)"
      by (simp add: parse_window_def zero_ram_priv_def EFI_PAGE_SIZE_def)
    show "fst ?mm = EFI_SUCCESS" by simp
    show "?pre \<noteq> []" by simp
    show "start ?v < entry_end (descriptor 7 0x4000 2)"
      by (simp add: descriptor_def entry_end_def EFI_PAGE_SIZE_def zero_ram_priv_def)
    show "end_addr ?v = 0 \<or>
       (\<forall>e\<in>set ?pre. PhysicalStart e \<le> end_addr ?v \<and> entry_end e < end_addr ?v)"
      by (simp add: descriptor_def entry_end_def EFI_PAGE_SIZE_def zero_ram_priv_def)
  qed (rule free sorted overlap)+
  ultimately show ?thesis by simp
qed


section \<open>What the header says of the plan\<close>

text \<open>
  After a successful \<open>ram_open\<close> the header and the stream length agree with the
  planned chunks in 32-bit arithmetic: \<open>total_chunks\<close> is the number of chunks,
  \<open>total_blks\<close> is the sum of the \<open>chunk_sz\<close> modulo \<open>2 ^ 32\<close>, and the low 32
  bits of \<open>ctx->len\<close> are the size of the sparse header plus the sum of the
  \<open>total_sz\<close>, modulo \<open>2 ^ 32\<close> as well.
\<close>

lemma ucast_add_64_32: "(ucast (x + y :: 64 word) :: 32 word) = ucast x + ucast y"
proof -
  have "unat (ucast (x + y) :: 32 word) = unat (ucast x + ucast y :: 32 word)"
    apply (simp add: unat_word_ariths unsigned_ucast_eq take_bit_nat_def)
    apply (simp add: mod_mod_cancel mod_add_eq)
    done
  then show ?thesis by (simp add: word_unat_eq_iff)
qed

lemma unat_chunk_nb_suc:
  assumes "unat (n :: UINTN) \<le> 256" and "n \<noteq> 256"
  shows "unat (n + 1) = unat n + 1"
proof -
  from assms have "unat n < 256"
    by (simp add: word_unat_eq_iff)
  then show ?thesis by (simp add: unat_word_ariths)
qed

lemma planned_chunks_add:
  assumes "unat (chunk_nb priv) \<le> 256" and "chunk_nb priv \<noteq> 256"
  shows "planned_chunks (priv\<lparr>chunk_nb := chunk_nb priv + 1,
            chunks := (chunks priv)(unat (chunk_nb priv) := c), sheader := sh\<rparr>)
         = planned_chunks priv @ [c]"
  using unat_chunk_nb_suc [OF assms] by (simp add: planned_chunks_def)

lemma ram_add_chunk_consistent:
  assumes "header_consistent ctx priv" and "ram_add_chunk ctx priv t sz = (ret, ctx', priv')"
  shows "header_consistent ctx' priv'"
proof (cases "ret = EFI_SUCCESS")
  case False
  with assms show ?thesis
    by (auto simp: ram_add_chunk_def Let_def split: if_splits)
next
  case True
  with assms(2) have ne: "chunk_nb priv \<noteq> 256"
    by (auto simp: ram_add_chunk_def Let_def MAX_MEMORY_REGION_NB_def split: if_splits)
  from assms(1) have le: "unat (chunk_nb priv) \<le> 256" by (simp add: header_consistent_def)
  from unat_chunk_nb_suc [OF le ne] le ne have le': "unat (chunk_nb priv + 1) \<le> 256"
    by (simp add: word_unat_eq_iff)
  from True assms le' show ?thesis
    by (auto simp: ram_add_chunk_def Let_def MAX_MEMORY_REGION_NB_def header_consistent_def
        planned_chunks_add [OF le ne] ucast_add_64_32 sizeof_chunk_header_def
        split: if_splits)
qed


lemma entry_chunk_preserves:
  assumes "\<And>ctx priv t sz ret ctx' priv'.
      P ctx priv \<Longrightarrow> ram_add_chunk ctx priv t sz = (ret, ctx', priv') \<Longrightarrow> P ctx' priv'"
    and "P ctx priv"
  shows "case_prod P (step_state (entry_chunk ctx priv e))"
  using assms
  by (auto simp: entry_chunk_def step_state_def Let_def split: prod.splits)

lemma build_step_preserves:
  assumes pres: "\<And>ctx priv t sz ret ctx' priv'.
      P ctx priv \<Longrightarrow> ram_add_chunk ctx priv t sz = (ret, ctx', priv') \<Longrightarrow> P ctx' priv'"
    and p: "P ctx priv"
  shows "case_prod P (step_state (build_step ctx priv pe e))"
proof -
  obtain ret c q where a: "ram_add_chunk ctx priv CHUNK_TYPE_DONT_CARE
      (hole_length priv pe e) = (ret, c, q)"
    by (metis prod_cases3)
  from pres [OF p a] have q: "P c q" .
  from pres p have e1: "case_prod P (step_state (entry_chunk ctx priv e))"
    by (rule entry_chunk_preserves)
  from pres q have e2: "case_prod P (step_state (entry_chunk c q e))"
    by (rule entry_chunk_preserves)
  have [simp]: "step_state (Next ctx priv) = (ctx, priv)"
    "step_state (Err EFI_SUCCESS ctx priv) = (ctx, priv)"
    "step_state (Err ret c q) = (c, q)" "step_state (Break c q) = (c, q)"
    by (simp_all add: step_state_def)
  from p q e1 e2 a show ?thesis
    unfolding build_step_def Let_def by simp
qed

lemma build_loop_preserves:
  assumes pres: "\<And>ctx priv t sz ret ctx' priv'.
      P ctx priv \<Longrightarrow> ram_add_chunk ctx priv t sz = (ret, ctx', priv') \<Longrightarrow> P ctx' priv'"
    and "P ctx priv" and "build_loop es pe ctx priv = (ex, pe', ctx', priv')"
  shows "P ctx' priv'"
  using assms(2,3)
proof (induction es arbitrary: pe ctx priv)
  case Nil
  then show ?case by simp
next
  case (Cons e es)
  from pres Cons.prems(1)
  have "case_prod P (step_state (build_step ctx priv pe e))"
    by (rule build_step_preserves)
  with Cons show ?case
    by (auto simp: step_state_def split: step.splits)
qed

lemma parse_window_plan:
  "parse_window argv priv = (ok, w) \<Longrightarrow>
   chunk_nb w = chunk_nb priv \<and> sheader w = sheader priv \<and> chunks w = chunks priv"
  by (auto simp: parse_window_def Let_def split: if_splits)

lemma ram_open_header_consistent:
  assumes "ram_open ctx argv GetMemoryMap g = Some (EFI_SUCCESS, ctx', g')"
  shows "total_chunks (sheader (static_ram_priv g')) = ucast (chunk_nb (static_ram_priv g')) \<and>
         length (planned_chunks (static_ram_priv g')) = unat (chunk_nb (static_ram_priv g')) \<and>
         total_blks (sheader (static_ram_priv g'))
           = sum_list (map chunk_sz (planned_chunks (static_ram_priv g'))) \<and>
         (ucast (len ctx') :: UINT32)
           = sizeof_sparse_header + sum_list (map total_sz (planned_chunks (static_ram_priv g')))"
proof -
  let ?p0 = "zero_ram_priv\<lparr>is_in_used := True\<rparr>"
  from assms obtain w entries ctx2 g2 where
    w: "parse_window argv ?p0 = (True, w)"
    and b: "ram_build_chunks (ctx\<lparr>private_data := PRIV_RAM\<rparr>)
              (g\<lparr>static_ram_priv := w\<lparr>sheader := init_sheader (sheader w),
                    memmap := entries\<rparr>\<rparr>) = (EFI_SUCCESS, ctx2, g2)"
    and c: "ctx' = ctx2\<lparr>len := len ctx2 + sizeof_sparse_header\<rparr>"
    and g: "g' = FreePool PTR_NULL g2"
    by (auto simp: ram_open_def Let_def EFI_ERROR_def
        split: if_splits prod.splits option.splits)
  let ?p = "w\<lparr>sheader := init_sheader (sheader w), memmap := entries\<rparr>"
  let ?c = "ctx\<lparr>private_data := PRIV_RAM, cur := 0, len := 0\<rparr>"
  from parse_window_plan [OF w] have init: "header_consistent ?c ?p"
    by (simp add: header_consistent_def planned_chunks_def init_sheader_def
        zero_ram_priv_def zero_sparse_header_def)
  from b obtain ex pe p' where
    l: "build_loop entries 0 ?c ?p = (ex, pe, ctx2, p')"
    and g2: "static_ram_priv g2 = p'\<lparr>end_addr := end_addr (static_ram_priv g2)\<rparr>"
    by (auto simp: ram_build_chunks_def Let_def EFI_ERROR_def FreePool_def
        split: prod.splits loop_exit.splits if_splits)
  from build_loop_preserves [of header_consistent, OF ram_add_chunk_consistent init l]
  have "header_consistent ctx2 p'" .
  then have "header_consistent ctx2 (static_ram_priv g2)"
    by (subst g2) (simp add: header_consistent_def planned_chunks_def)
  with c g show ?thesis
    by (simp add: header_consistent_def FreePool_def ucast_add_64_32 planned_chunks_def
        sizeof_sparse_header_def)
qed


section \<open>What the plan covers\<close>

text \<open>
  On a sorted map without overlap, when \<open>start\<close> is not in a descriptor that has a hole
  before it, a successful \<open>ram_open\<close> plans the blocks of \<open>[start, end)\<close>:
  \<open>end - start\<close> is a multiple of the page size and \<open>total_blks\<close> is its quotient, in
  32 bits.
\<close>

lemma page_multiple_unat:
  fixes a :: "64 word"
  assumes "a mod 4096 = 0"
  obtains q where "unat a = 4096 * q" and "unat (a div 4096) = q"
proof -
  from assms have "unat (a mod 4096) = 0" by simp
  then have "unat a mod 4096 = 0" by (simp add: unat_mod)
  then obtain q where q: "unat a = 4096 * q" by (auto simp: mod_eq_0_iff_dvd)
  then have "unat (a div 4096) = q" by (simp add: unat_div)
  with q show ?thesis by (rule that)
qed

lemma page_multiple_add:
  fixes a b :: "64 word"
  assumes "a mod 4096 = 0" and "b mod 4096 = 0"
  shows "(a + b) mod 4096 = 0 \<and>
         (ucast ((a + b) div 4096) :: 32 word) = ucast (a div 4096) + ucast (b div 4096)"
proof -
  from assms(1) obtain qa where ua: "unat a = 4096 * qa" and da: "unat (a div 4096) = qa"
    by (rule page_multiple_unat)
  from assms(2) obtain qb where ub: "unat b = 4096 * qb" and db: "unat (b div 4096) = qb"
    by (rule page_multiple_unat)
  have "unat (a + b) = (4096 * qa + 4096 * qb) mod 2 ^ 64"
    by (simp add: unat_word_ariths ua ub)
  also have "4096 * qa + 4096 * qb = 4096 * (qa + qb)"
    by (simp add: algebra_simps)
  also have "(2::nat) ^ 64 = 4096 * 2 ^ 52"
    by simp
  also have "(4096 * (qa + qb)) mod (4096 * 2 ^ 52) = 4096 * ((qa + qb) mod 2 ^ 52)"
    by (rule mult_mod_right [symmetric])
  finally have s: "unat (a + b) = 4096 * ((qa + qb) mod 2 ^ 52)" .
  then have "unat ((a + b) mod 4096) = 0"
    by (simp add: unat_mod)
  then have m: "(a + b) mod 4096 = 0"
    by (simp add: word_unat_eq_iff)
  have "unat ((a + b) div 4096) = (qa + qb) mod 2 ^ 52"
    by (simp add: unat_div s)
  then have l: "unat (ucast ((a + b) div 4096) :: 32 word) = (qa + qb) mod 2 ^ 32"
    by (simp add: unsigned_ucast_eq take_bit_nat_def mod_mod_cancel)
  have "unat (ucast (a div 4096) :: 32 word) = qa mod 2 ^ 32"
    "unat (ucast (b div 4096) :: 32 word) = qb mod 2 ^ 32"
  proof -
    have "unat (ucast (a div 4096) :: 32 word) = unat (a div 4096) mod 2 ^ 32"
      by (simp only: unsigned_ucast_eq take_bit_nat_def) simp
    then show "unat (ucast (a div 4096) :: 32 word) = qa mod 2 ^ 32"
      by (simp only: da)
    have "unat (ucast (b div 4096) :: 32 word) = unat (b div 4096) mod 2 ^ 32"
      by (simp only: unsigned_ucast_eq take_bit_nat_def) simp
    then show "unat (ucast (b div 4096) :: 32 word) = qb mod 2 ^ 32"
      by (simp only: db)
  qed
  then have r: "unat (ucast (a div 4096) + ucast (b div 4096) :: 32 word) = (qa + qb) mod 2 ^ 32"
    by (simp add: unat_word_ariths mod_add_eq)
  from l r have "(ucast ((a + b) div 4096) :: 32 word) = ucast (a div 4096) + ucast (b div 4096)"
    by (simp add: word_unat_eq_iff)
  with m show ?thesis by simp
qed


lemma ram_add_chunk_blocks:
  assumes a: "ram_add_chunk ctx priv t sz = (ret, ctx', priv')" and ok: "\<not> EFI_ERROR ret"
    and b: "blocks_to priv pos"
  shows "blocks_to priv' (pos + sz)"
proof -
  from a ok have sz: "sz mod 4096 = 0" and s: "start priv' = start priv"
    and t: "total_blks (sheader priv') = total_blks (sheader priv) + ucast (sz div 4096)"
    by (auto simp: ram_add_chunk_def Let_def EFI_ERROR_def EFI_PAGE_SIZE_def split: if_splits)
  from b have m: "(pos - start priv) mod 4096 = 0"
    and tb: "total_blks (sheader priv) = ucast ((pos - start priv) div 4096)"
    by (simp_all add: blocks_to_def EFI_PAGE_SIZE_def)
  have eq: "pos + sz - start priv = (pos - start priv) + sz" by simp
  from page_multiple_add [OF m sz] s t tb show ?thesis
    by (simp add: blocks_to_def EFI_PAGE_SIZE_def eq)
qed

lemma hole_position:
  assumes "pe \<le> PhysicalStart e" and "start priv < PhysicalStart e"
  shows "max (start priv) pe + hole_length priv pe e =
         (if end_addr priv \<noteq> 0 \<and> end_addr priv < PhysicalStart e
          then end_addr priv else PhysicalStart e)"
  using assms by (auto simp: hole_length_def Let_def max_def)

lemma entry_position:
  assumes "start priv < entry_end e"
  shows "max (start priv) (PhysicalStart e) + entry_length priv e =
         (if end_addr priv \<noteq> 0 \<and> end_addr priv < entry_end e
          then end_addr priv else entry_end e)"
  using assms by (auto simp: entry_length_def entry_end_def Let_def max_def)


lemma entry_chunk_walk:
  assumes ns: "start priv < entry_end e"
    and b: "blocks_to priv (max (start priv) (PhysicalStart e))"
  shows "case entry_chunk ctx priv e of
           Next c p \<Rightarrow> walk_inv c p (entry_end e)
         | Break c p \<Rightarrow> end_addr priv \<noteq> 0 \<and> blocks_to p (end_addr priv)
         | Err r c p \<Rightarrow> True"
proof -
  obtain ret c p where a: "ram_add_chunk ctx priv
      (if Type e = EfiConventionalMemory then CHUNK_TYPE_RAW else CHUNK_TYPE_DONT_CARE)
      (entry_length priv e) = (ret, c, p)"
    by (metis prod_cases3)
  show ?thesis
  proof (cases "EFI_ERROR ret")
    case True
    with a show ?thesis by (simp add: entry_chunk_def Let_def)
  next
    case False
    from ram_add_chunk_kept [OF a] have k: "start p = start priv" "end_addr p = end_addr priv"
      by (simp_all add: kept_def)
    from ram_add_chunk_blocks [OF a False b] entry_position [OF ns]
    have pos: "blocks_to p (if end_addr priv \<noteq> 0 \<and> end_addr priv < entry_end e
                           then end_addr priv else entry_end e)"
      by simp
    show ?thesis
    proof (cases "end_addr priv \<noteq> 0 \<and> end_addr priv \<le> entry_end e")
      case True
      then have "(if end_addr priv \<noteq> 0 \<and> end_addr priv < entry_end e
                  then end_addr priv else entry_end e) = end_addr priv"
        by auto
      with pos True False a k show ?thesis
        by (simp add: entry_chunk_def Let_def entry_end_def)
    next
      case nb: False
      then have "(if end_addr priv \<noteq> 0 \<and> end_addr priv < entry_end e
                  then end_addr priv else entry_end e) = entry_end e"
        by auto
      with pos have "blocks_to p (entry_end e)" by simp
      moreover from ns k have "max (start p) (entry_end e) = entry_end e"
        "\<not> entry_end e \<le> start p"
        by (simp_all add: max_absorb2 less_imp_le not_le)
      ultimately have "walk_inv c p (entry_end e)"
        by (simp add: walk_inv_def)
      with nb False a k show ?thesis
        by (auto simp: entry_chunk_def Let_def entry_end_def)
    qed
  qed
qed

lemma build_step_walk:
  assumes chain: "pe \<le> PhysicalStart e" "PhysicalStart e \<le> entry_end e"
    and ok: "\<not> (pe < PhysicalStart e \<and> PhysicalStart e \<le> start priv \<and>
                start priv < entry_end e)"
    and inv: "walk_inv ctx priv pe"
  shows "case build_step ctx priv pe e of
           Next c p \<Rightarrow> walk_inv c p (entry_end e)
         | Break c p \<Rightarrow> end_addr priv \<noteq> 0 \<and> blocks_to p (end_addr priv)
         | Err r c p \<Rightarrow> True"
proof (cases "start priv \<ge> entry_end e")
  case True
  with chain have "pe \<le> start priv" "max (start priv) pe = start priv"
    "max (start priv) (entry_end e) = start priv"
    by (auto simp: max_def)
  with inv True show ?thesis
    by (simp add: build_step_def entry_end_def walk_inv_def)
next
  case skip: False
  then have ns: "start priv < entry_end e" by simp
  show ?thesis
  proof (cases "pe = PhysicalStart e")
    case True
    with inv have "blocks_to priv (max (start priv) (PhysicalStart e))"
      by (simp add: walk_inv_def)
    from entry_chunk_walk [OF ns this, of ctx] True skip show ?thesis
      by (simp add: build_step_def entry_end_def)
  next
    case hole: False
    with chain(1) have lt: "pe < PhysicalStart e" by simp
    with ok ns have sp: "start priv < PhysicalStart e" by auto
    from lt have no: "\<not> PhysicalStart e < pe" by simp
    obtain ret c p where a: "ram_add_chunk ctx priv CHUNK_TYPE_DONT_CARE
        (hole_length priv pe e) = (ret, c, p)"
      by (metis prod_cases3)
    show ?thesis
    proof (cases "EFI_ERROR ret")
      case True
      with a skip hole no show ?thesis
        by (simp add: build_step_def entry_end_def)
    next
      case False
      from ram_add_chunk_kept [OF a] have k: "start p = start priv" "end_addr p = end_addr priv"
        by (simp_all add: kept_def)
      from inv have "blocks_to priv (max (start priv) pe)" by (simp add: walk_inv_def)
      from ram_add_chunk_blocks [OF a False this] hole_position [OF chain(1) sp]
      have pos: "blocks_to p (if end_addr priv \<noteq> 0 \<and> end_addr priv < PhysicalStart e
                             then end_addr priv else PhysicalStart e)"
        by simp
      show ?thesis
      proof (cases "end_addr priv \<noteq> 0 \<and> end_addr priv < PhysicalStart e")
        case True
        with pos False a skip hole no k show ?thesis
          by (simp add: build_step_def entry_end_def)
      next
        case nb: False
        with pos have "blocks_to p (PhysicalStart e)" by auto
        moreover from sp k have "max (start p) (PhysicalStart e) = PhysicalStart e"
          by (simp add: max_absorb2 less_imp_le)
        ultimately have b: "blocks_to p (max (start p) (PhysicalStart e))" by simp
        from ns k have ns': "start p < entry_end e" by simp
        from entry_chunk_walk [OF ns' b, of c] k
        have "case entry_chunk c p e of
                Next c p \<Rightarrow> walk_inv c p (entry_end e)
              | Break c p \<Rightarrow> end_addr priv \<noteq> 0 \<and> blocks_to p (end_addr priv)
              | Err r c p \<Rightarrow> True"
          by (simp split: step.splits)
        with nb False a skip hole no k show ?thesis
          by (auto simp: build_step_def entry_end_def)
      qed
    qed
  qed
qed

lemma build_loop_walk:
  assumes "no_overlap pe es" and "start_ok (start priv) pe es" and "walk_inv ctx priv pe"
    and "build_loop es pe ctx priv = (ex, pe', ctx', priv')"
  shows "(ex = Completed \<longrightarrow> walk_inv ctx' priv' pe') \<and>
         (ex = Broke \<longrightarrow> end_addr priv \<noteq> 0 \<and> blocks_to priv' (end_addr priv))"
  using assms
proof (induction es arbitrary: pe ctx priv)
  case Nil
  then show ?case by simp
next
  case (Cons e es)
  from Cons.prems(1) have chain: "pe \<le> PhysicalStart e" "PhysicalStart e \<le> entry_end e"
    "no_overlap (entry_end e) es" by simp_all
  from Cons.prems(2) have ok: "\<not> (pe < PhysicalStart e \<and> PhysicalStart e \<le> start priv \<and>
      start priv < entry_end e)" and ok': "start_ok (start priv) (entry_end e) es"
    by simp_all
  note w = build_step_walk [OF chain(1,2) ok Cons.prems(3)]
  note k = build_step_kept [of ctx priv pe e]
  show ?case
  proof (cases "build_step ctx priv pe e")
    case (Next c p)
    with w k have i: "walk_inv c p (entry_end e)" and kk: "kept ctx priv c p"
      by (simp_all add: step_kept_def)
    from kk ok' have o: "start_ok (start p) (entry_end e) es" by (simp add: kept_def)
    from Cons.prems(4) Next
    have l: "build_loop es (entry_end e) c p = (ex, pe', ctx', priv')"
      by (simp add: entry_end_def)
    from Cons.IH [OF chain(3) o i l] kk show ?thesis
      by (simp add: kept_def)
  next
    case (Break c p)
    with w Cons.prems(4) show ?thesis by auto
  next
    case (Err r c p)
    with Cons.prems(4) show ?thesis by auto
  qed
qed

lemma ram_open_blocks:
  assumes "ram_open ctx argv GetMemoryMap g = Some (EFI_SUCCESS, ctx', g')"
    and "sort_memory_map (snd GetMemoryMap) (length (snd GetMemoryMap)) = Some es"
    and "no_overlap 0 es"
    and "start_ok (start (static_ram_priv g')) 0 es"
  shows "blocks_to (static_ram_priv g') (end_addr (static_ram_priv g'))"
proof -
  let ?p0 = "zero_ram_priv\<lparr>is_in_used := True\<rparr>"
  from assms(1,2) obtain w ctx2 g2 where
    w: "parse_window argv ?p0 = (True, w)"
    and b: "ram_build_chunks (ctx\<lparr>private_data := PRIV_RAM\<rparr>)
              (g\<lparr>static_ram_priv := w\<lparr>sheader := init_sheader (sheader w),
                    memmap := es\<rparr>\<rparr>) = (EFI_SUCCESS, ctx2, g2)"
    and g: "g' = FreePool PTR_NULL g2"
    by (auto simp: ram_open_def Let_def EFI_ERROR_def
        split: if_splits prod.splits option.splits)
  let ?p = "w\<lparr>sheader := init_sheader (sheader w), memmap := es\<rparr>"
  let ?c = "ctx\<lparr>private_data := PRIV_RAM, cur := 0, len := 0\<rparr>"
  from parse_window_plan [OF w] have init: "walk_inv ?c ?p 0"
    by (simp add: walk_inv_def blocks_to_def init_sheader_def zero_ram_priv_def
        zero_sparse_header_def max_def)
  obtain ex pe p' c' where l: "build_loop es 0 ?c ?p = (ex, pe, c', p')"
    by (metis prod_cases4)
  note k = build_loop_kept [OF l]
  from k have se: "start p' = start w" "end_addr p' = end_addr w"
    by (simp_all add: kept_def)
  from b l have r: "len c' \<noteq> 0" "\<not> (end_addr p' \<noteq> 0 \<and> ex = Completed)"
      "static_ram_priv g2 = p'\<lparr>end_addr := (if end_addr p' = 0 then pe else end_addr p')\<rparr>"
    and nf: "\<And>r. ex \<noteq> Failed r"
    by (auto simp: ram_build_chunks_def Let_def EFI_ERROR_def FreePool_def
        split: loop_exit.splits if_splits)
  from r g se have st: "start (static_ram_priv g') = start ?p"
    by (auto simp: FreePool_def)
  from assms(4) st have so: "start_ok (start ?p) 0 es" by simp
  note wl = build_loop_walk [OF assms(3) so init l]
  show ?thesis
  proof (cases ex)
    case Completed
    with r(2) have z: "end_addr p' = 0" by simp
    from wl Completed have "walk_inv c' p' pe" by simp
    with r(1) have "blocks_to p' pe"
      by (auto simp: walk_inv_def max_def split: if_splits)
    with r(3) z g show ?thesis
      by (simp add: blocks_to_def FreePool_def)
  next
    case Broke
    with wl se have "end_addr p' \<noteq> 0" "blocks_to p' (end_addr p')" by simp_all
    with r(3) g show ?thesis
      by (simp add: blocks_to_def FreePool_def)
  next
    case (Failed x)
    with nf [of x] show ?thesis by simp
  qed
qed


section \<open>Chunk plans that differ from the window\<close>

text \<open>
  C1: the chunk plan should cover exactly \<open>[start, end)\<close>.  The code plans the whole
  hole before the first descriptor that ends above \<open>start\<close> when \<open>start\<close> is not inside
  that hole.  On a map of one page at 0 and four pages at \<open>0x4000\<close>, the argument
  \<open>5000\<close> is accepted with the window \<open>[0x5000, 0x8000)\<close> of 3 pages, and the plan is
  a DONT_CARE chunk of 3 blocks, for the hole \<open>[0x1000, 0x4000)\<close> below the window,
  and a RAW chunk of 3 blocks: \<open>0x6000\<close> bytes.
\<close>

theorem hole_before_window_is_planned:
  "status_of (ram_open (fresh_ctx Ram) [(0x5000, True)]
      (EFI_SUCCESS, [descriptor 7 0 1, descriptor 7 0x4000 4]) boot_globals)
     = Some EFI_SUCCESS \<and>
   start (priv_of (ram_open (fresh_ctx Ram) [(0x5000, True)]
      (EFI_SUCCESS, [descriptor 7 0 1, descriptor 7 0x4000 4]) boot_globals)) = 0x5000 \<and>
   end_addr (priv_of (ram_open (fresh_ctx Ram) [(0x5000, True)]
      (EFI_SUCCESS, [descriptor 7 0 1, descriptor 7 0x4000 4]) boot_globals)) = 0x8000 \<and>
   plan_shape (priv_of (ram_open (fresh_ctx Ram) [(0x5000, True)]
      (EFI_SUCCESS, [descriptor 7 0 1, descriptor 7 0x4000 4]) boot_globals))
     = [(CHUNK_TYPE_DONT_CARE, 3), (CHUNK_TYPE_RAW, 3)] \<and>
   planned_bytes (priv_of (ram_open (fresh_ctx Ram) [(0x5000, True)]
      (EFI_SUCCESS, [descriptor 7 0 1, descriptor 7 0x4000 4]) boot_globals)) = 0x6000"
  by code_simp

text \<open>
  C5: every planned chunk should have a positive length.  The code plans a chunk of no
  block for a descriptor that starts exactly at \<open>end\<close> after a hole: line 159 leaves
  the loop only when \<open>end\<close> is below the start of the descriptor.  On a map of one page
  at 0 and one page at \<open>0x4000\<close>, the arguments \<open>0\<close> and \<open>4000\<close> are accepted and the
  plan ends with a RAW chunk of 0 blocks.
\<close>

theorem zero_length_chunk_is_planned:
  "status_of (ram_open (fresh_ctx Ram) [(0, True), (0x4000, True)]
      (EFI_SUCCESS, [descriptor 7 0 1, descriptor 7 0x4000 1]) boot_globals)
     = Some EFI_SUCCESS \<and>
   plan_shape (priv_of (ram_open (fresh_ctx Ram) [(0, True), (0x4000, True)]
      (EFI_SUCCESS, [descriptor 7 0 1, descriptor 7 0x4000 1]) boot_globals))
     = [(CHUNK_TYPE_RAW, 1), (CHUNK_TYPE_DONT_CARE, 3), (CHUNK_TYPE_RAW, 0)]"
  by code_simp

section \<open>Stream length and chunk sizes\<close>

text \<open>
  C2: \<open>ctx.len\<close> should be the size of the sparse header plus the sum of the
  \<open>total_sz\<close> of the planned chunks.  The field \<open>total_sz\<close> has 32 bits and line 109
  adds the 64-bit size to it, while line 110 adds the same size to \<open>ctx.len\<close>.  On a map
  of one conventional region of 4 GiB (\<open>0x100000\<close> pages) the stream length is
  \<open>0x100000028\<close> and the only chunk has \<open>total_sz = 12\<close>.
\<close>

theorem large_chunk_total_sz_wraps:
  "status_of (ram_open (fresh_ctx Ram) [] (EFI_SUCCESS, [descriptor 7 0 0x100000])
      boot_globals) = Some EFI_SUCCESS \<and>
   len (ctx_of (ram_open (fresh_ctx Ram) [] (EFI_SUCCESS, [descriptor 7 0 0x100000])
      boot_globals)) = 0x100000028 \<and>
   28 + planned_total_sz (priv_of (ram_open (fresh_ctx Ram) []
      (EFI_SUCCESS, [descriptor 7 0 0x100000]) boot_globals)) = 40"
  by code_simp

end
